theory Spec2Isabelle
  imports Complex_Main "HOL-Library.Char_ord" "HOL-Library.List_Lexorder"
begin

section \<open>Data model of \<^verbatim>\<open>dropblox_ai.py\<close>\<close>

text \<open>
  Python exceptions that the modelled functions can raise. \<^verbatim>\<open>InvalidMoveError\<close> is the
  module's own exception class; the others are raised by the interpreter.
\<close>

datatype error = IndexError | KeyError | TypeError | AttributeError | AssertionError | InvalidMoveError

text \<open>
  \<^verbatim>\<open>class Point\<close>: the fields \<^verbatim>\<open>i\<close> (row) and \<^verbatim>\<open>j\<close> (column) are Python
  integers. They are called \<open>pt_i\<close> and \<open>pt_j\<close> here, so that \<open>i\<close> and \<open>j\<close> stay
  usable as variables.
\<close>

record Point =
  pt_i :: int
  pt_j :: int

text \<open>\<^verbatim>\<open>class Block\<close>: center and offsets are fixed, translation and rotation are mutated.\<close>

record Block =
  center :: Point
  offsets :: "Point list"
  translation :: Point
  rotation :: int

text \<open>
  \<^verbatim>\<open>class Board\<close>: the bitmap is a list of rows of integer cells (0 is empty, anything
  else is truthy and counts as occupied), the active block and the preview list.
\<close>

record Board =
  bitmap :: "int list list"
  block :: Block
  preview :: "Block list"

text \<open>The class attributes \<^verbatim>\<open>Board.rows = 33\<close> and \<^verbatim>\<open>Board.cols = 12\<close>.\<close>

definition rows :: int where
  "rows = 33"

definition cols :: int where
  "cols = 12"

section \<open>Block geometry\<close>

text \<open>
  \<^verbatim>\<open>Block.squares\<close> (lines 74-86). The generator is modelled by the list of the points
  it yields, in order. Python's \<^verbatim>\<open>%\<close> with a positive modulus is \<open>mod\<close> on \<open>int\<close>.
\<close>

definition squares :: "Block \<Rightarrow> Point list" where
  "squares self =
     (if rotation self mod 2 \<noteq> 0 then
        map (\<lambda>offset.
              \<lparr>pt_i = pt_i (center self) + pt_i (translation self) + (2 - rotation self) * pt_j offset,
               pt_j = pt_j (center self) + pt_j (translation self) - (2 - rotation self) * pt_i offset\<rparr>)
            (offsets self)
      else
        map (\<lambda>offset.
              \<lparr>pt_i = pt_i (center self) + pt_i (translation self) + (1 - rotation self) * pt_i offset,
               pt_j = pt_j (center self) + pt_j (translation self) + (1 - rotation self) * pt_j offset\<rparr>)
            (offsets self))"

text \<open>The in-place moves of a block (lines 88-104); each returns the mutated block.\<close>

definition left :: "Block \<Rightarrow> Block" where
  "left self = self\<lparr>translation := (translation self)\<lparr>pt_j := pt_j (translation self) - 1\<rparr>\<rparr>"

definition right :: "Block \<Rightarrow> Block" where
  "right self = self\<lparr>translation := (translation self)\<lparr>pt_j := pt_j (translation self) + 1\<rparr>\<rparr>"

definition up :: "Block \<Rightarrow> Block" where
  "up self = self\<lparr>translation := (translation self)\<lparr>pt_i := pt_i (translation self) - 1\<rparr>\<rparr>"

definition down :: "Block \<Rightarrow> Block" where
  "down self = self\<lparr>translation := (translation self)\<lparr>pt_i := pt_i (translation self) + 1\<rparr>\<rparr>"

definition rotate_block :: "Block \<Rightarrow> Block" where
  "rotate_block self = self\<lparr>rotation := rotation self + 1\<rparr>"

definition unrotate :: "Block \<Rightarrow> Block" where
  "unrotate self = self\<lparr>rotation := rotation self - 1\<rparr>"

definition reset_position :: "Block \<Rightarrow> Block" where
  "reset_position self = self\<lparr>translation := (translation self)\<lparr>pt_i := 0, pt_j := 0\<rparr>, rotation := 0\<rparr>"

text \<open>
  \<^verbatim>\<open>Block.do_command\<close> (lines 144-147): the assertion rejects every string but the five
  move names, then the method of that name is called.
\<close>

definition do_command :: "Block \<Rightarrow> string \<Rightarrow> error + Block" where
  "do_command self command =
     (if command = ''left'' then Inr (left self)
      else if command = ''right'' then Inr (right self)
      else if command = ''up'' then Inr (up self)
      else if command = ''down'' then Inr (down self)
      else if command = ''rotate'' then Inr (rotate_block self)
      else Inl AssertionError)"

text \<open>
  \<^verbatim>\<open>Block.do_commands\<close> (lines 149-151). The method has no return statement: its value
  is None. The model returns the state of \<open>self\<close> after the loop.
\<close>

fun Block_do_commands :: "Block \<Rightarrow> string list \<Rightarrow> error + Block" where
  "Block_do_commands self [] = Inr self"
| "Block_do_commands self (command # commands) =
     (case do_command self command of
        Inl e \<Rightarrow> Inl e
      | Inr self' \<Rightarrow> Block_do_commands self' commands)"

section \<open>Board legality\<close>

text \<open>
  \<^verbatim>\<open>Board.check\<close> (lines 183-189). The bounds are the class constants, not the lengths of
  the bitmap, so a bitmap with fewer than 33 rows or a row shorter than 12 cells makes the
  subscript raise IndexError. The loop stops at the first offending square.
\<close>

fun check_squares :: "int list list \<Rightarrow> Point list \<Rightarrow> error + bool" where
  "check_squares bm [] = Inr True"
| "check_squares bm (square # rest) =
     (if pt_i square < 0 \<or> pt_i square \<ge> rows \<or> pt_j square < 0 \<or> pt_j square \<ge> cols then Inr False
      else if length bm \<le> nat (pt_i square) then Inl IndexError
      else if length (bm ! nat (pt_i square)) \<le> nat (pt_j square) then Inl IndexError
      else if bm ! nat (pt_i square) ! nat (pt_j square) \<noteq> 0 then Inr False
      else check_squares bm rest)"

definition check :: "Board \<Rightarrow> Block \<Rightarrow> error + bool" where
  "check self blk = check_squares (bitmap self) (squares blk)"

text \<open>The shape every board of the game has: 33 rows of 12 cells.\<close>

definition wf_bitmap :: "int list list \<Rightarrow> bool" where
  "wf_bitmap bm = (length bm = 33 \<and> list_all (\<lambda>row. length row = 12) bm)"

section \<open>The lock transition\<close>

text \<open>
  Python subscripts accept a negative index \<open>k\<close> down to \<open>- n\<close> and read it as \<open>n + k\<close>;
  anything else outside \<open>[0, n)\<close> raises IndexError (\<open>None\<close> here).
\<close>

definition py_index :: "nat \<Rightarrow> int \<Rightarrow> nat option" where
  "py_index n k =
     (if 0 \<le> k \<and> k < int n then Some (nat k)
      else if - int n \<le> k \<and> k < 0 then Some (nat (int n + k))
      else None)"

text \<open>
  The loop \<^verbatim>\<open>for square in self.block.squares(): new_bitmap[square.i][square.j] = 1\<close>
  of \<^verbatim>\<open>Board.place\<close> (lines 224-225), on the copied bitmap.
\<close>

fun mark_squares :: "int list list \<Rightarrow> Point list \<Rightarrow> error + int list list" where
  "mark_squares new_bitmap [] = Inr new_bitmap"
| "mark_squares new_bitmap (square # rest) =
     (case py_index (length new_bitmap) (pt_i square) of
        None \<Rightarrow> Inl IndexError
      | Some r \<Rightarrow>
          (case py_index (length (new_bitmap ! r)) (pt_j square) of
             None \<Rightarrow> Inl IndexError
           | Some c \<Rightarrow> mark_squares (new_bitmap[r := (new_bitmap ! r)[c := 1]]) rest))"

text \<open>
  \<^verbatim>\<open>Board.remove_rows\<close> (lines 234-237). \<^verbatim>\<open>len(bitmap[0])\<close> raises IndexError on an
  empty bitmap; \<^verbatim>\<open>all(row)\<close> holds when no cell of the row is 0.
\<close>

definition remove_rows :: "int list list \<Rightarrow> error + int list list" where
  "remove_rows bm =
     (if bm = [] then Inl IndexError
      else
        let new_bitmap = filter (\<lambda>row. \<not> list_all (\<lambda>x. x \<noteq> 0) row) bm
        in Inr (replicate (length bm - length new_bitmap) (replicate (length (bm ! 0)) 0) @ new_bitmap))"

text \<open>
  The loop \<^verbatim>\<open>while self.check(self.block): self.block.down()\<close> of \<^verbatim>\<open>Board.place\<close>
  (lines 219-220). It runs forever on a block without offsets, whose check is always true:
  not returning is \<open>None\<close>. The result carries the state of the block when the loop ends or
  raises.
\<close>

partial_function (option) place_fall :: "Board \<Rightarrow> Block \<Rightarrow> ((error + unit) \<times> Block) option" where
  "place_fall self blk =
     (case check self blk of
        Inl e \<Rightarrow> Some (Inl e, blk)
      | Inr ok \<Rightarrow> if ok then place_fall self (down blk) else Some (Inr (), blk))"

declare place_fall.simps [code]

text \<open>
  \<^verbatim>\<open>Board.place\<close> (lines 218-230). The method mutates \<^verbatim>\<open>self.block\<close> and leaves the
  bitmap of \<open>self\<close> alone (it is copied row by row first). With an empty preview it
  prints a message and returns None. The model returns the value of the call, \<open>Inr None\<close>
  for Python's None, together with \<open>self\<close> as the call leaves it.
\<close>

definition place :: "Board \<Rightarrow> ((error + Board option) \<times> Board) option" where
  "place self =
     (case place_fall self (block self) of
        None \<Rightarrow> None
      | Some (Inl e, blk) \<Rightarrow> Some (Inl e, self\<lparr>block := blk\<rparr>)
      | Some (Inr _, blk) \<Rightarrow>
          (let self' = self\<lparr>block := up blk\<rparr> in
           case mark_squares (bitmap self') (squares (block self')) of
             Inl e \<Rightarrow> Some (Inl e, self')
           | Inr marked \<Rightarrow>
               (case remove_rows marked of
                  Inl e \<Rightarrow> Some (Inl e, self')
                | Inr new_bitmap \<Rightarrow>
                    if length (preview self') = 0 then Some (Inr None, self')
                    else Some (Inr (Some \<lparr>bitmap = new_bitmap, block = hd (preview self'),
                                           preview = tl (preview self')\<rparr>), self'))))"

text \<open>
  \<^verbatim>\<open>Board.do_commands\<close> (lines 197-209): first the loop over the commands, then the
  method. The method returns its value, \<open>self\<close> as the call leaves it, and the caller's
  command list as the call leaves it. A loop that ran off the end of the list would return
  None.
\<close>

fun do_commands_loop :: "Board \<Rightarrow> string list \<Rightarrow> ((error + Board option) \<times> Board) option" where
  "do_commands_loop self [] = Some (Inr None, self)"
| "do_commands_loop self (command # rest) =
     (if command = ''drop'' then place self
      else
        (case do_command (block self) command of
           Inl e \<Rightarrow> Some (Inl e, self)
         | Inr blk \<Rightarrow>
             (let self' = self\<lparr>block := blk\<rparr> in
              case check self' (block self') of
                Inl e \<Rightarrow> Some (Inl e, self')
              | Inr ok \<Rightarrow>
                  if \<not> ok then Some (Inl InvalidMoveError, self')
                  else do_commands_loop self' rest)))"

definition Board_do_commands ::
    "Board \<Rightarrow> string list \<Rightarrow> ((error + Board option) \<times> Board \<times> string list) option" where
  "Board_do_commands self commands =
     (let self' = self\<lparr>block := reset_position (block self)\<rparr> in
      case check self' (block self') of
        Inl e \<Rightarrow> Some (Inl e, self', commands)
      | Inr ok \<Rightarrow>
          if \<not> ok then Some (Inl InvalidMoveError, self', commands)
          else
            (case do_commands_loop self' (commands @ [''drop'']) of
               None \<Rightarrow> None
             | Some (res, self'') \<Rightarrow> Some (res, self'', commands @ [''drop''])))"

section \<open>The placement enumerator\<close>

text \<open>
  \<^verbatim>\<open>Block.__init__\<close> (lines 63-70) subscripts its arguments: \<^verbatim>\<open>center['i']\<close>,
  \<^verbatim>\<open>offset['i']\<close>. With the dictionaries of the decoded JSON that works; a Point object
  has no \<^verbatim>\<open>__getitem__\<close>, so subscripting it raises TypeError.
\<close>

datatype pyarg = Dict "(string \<times> int) list" | PointObj Point

fun subscript :: "pyarg \<Rightarrow> string \<Rightarrow> error + int" where
  "subscript (Dict kvs) k = (case map_of kvs k of None \<Rightarrow> Inl KeyError | Some v \<Rightarrow> Inr v)"
| "subscript (PointObj p) k = Inl TypeError"

definition make_point :: "pyarg \<Rightarrow> error + Point" where
  "make_point a =
     (case subscript a ''i'' of
        Inl e \<Rightarrow> Inl e
      | Inr vi \<Rightarrow> (case subscript a ''j'' of Inl e \<Rightarrow> Inl e | Inr vj \<Rightarrow> Inr \<lparr>pt_i = vi, pt_j = vj\<rparr>))"

fun make_points :: "pyarg list \<Rightarrow> error + Point list" where
  "make_points [] = Inr []"
| "make_points (a # as) =
     (case make_point a of
        Inl e \<Rightarrow> Inl e
      | Inr p \<Rightarrow> (case make_points as of Inl e \<Rightarrow> Inl e | Inr ps \<Rightarrow> Inr (p # ps)))"

definition Block_init :: "pyarg \<Rightarrow> pyarg list \<Rightarrow> error + Block" where
  "Block_init center_arg offsets_arg =
     (case make_point center_arg of
        Inl e \<Rightarrow> Inl e
      | Inr c \<Rightarrow>
          (case make_points offsets_arg of
             Inl e \<Rightarrow> Inl e
           | Inr offs \<Rightarrow>
               Inr \<lparr>center = c, offsets = offs, translation = \<lparr>pt_i = 0, pt_j = 0\<rparr>, rotation = 0\<rparr>))"

text \<open>
  The local function \<^verbatim>\<open>block_copy\<close> of \<^verbatim>\<open>positions_by_dropping\<close> (lines 274-275)
  passes the Point objects of the block to the constructor.
\<close>

definition block_copy :: "Block \<Rightarrow> error + Block" where
  "block_copy blk = Block_init (PointObj (center blk)) (map PointObj (offsets blk))"

text \<open>
  The first loop of \<^verbatim>\<open>positions_by_dropping\<close> (lines 277-279) works on the \<^verbatim>\<open>block\<close>
  argument itself, the caller's object. The loops return the state of that object and of
  the local lists.
\<close>

partial_function (option) slide_left ::
    "Board \<Rightarrow> Block \<Rightarrow> string list \<Rightarrow> ((error + unit) \<times> Block \<times> string list) option" where
  "slide_left board blk move =
     (case check board blk of
        Inl e \<Rightarrow> Some (Inl e, blk, move)
      | Inr ok \<Rightarrow>
          if ok then slide_left board (left blk) (move @ [''left''])
          else Some (Inr (), blk, move))"

declare slide_left.simps [code]

text \<open>The inner loop \<^verbatim>\<open>for i in range(4)\<close> (lines 287-290), counted down.\<close>

fun rotations :: "nat \<Rightarrow> Block \<Rightarrow> string list \<Rightarrow> string list list \<Rightarrow> Block \<times> string list \<times> string list list" where
  "rotations 0 blk move moves = (blk, move, moves)"
| "rotations (Suc n) blk move moves =
     rotations n (rotate_block blk) (move @ [''rotate'']) (moves @ [move])"

text \<open>The second loop (lines 286-292).\<close>

partial_function (option) sweep_right ::
    "Board \<Rightarrow> Block \<Rightarrow> string list \<Rightarrow> string list list \<Rightarrow>
     ((error + unit) \<times> Block \<times> string list \<times> string list list) option" where
  "sweep_right board blk move moves =
     (case check board blk of
        Inl e \<Rightarrow> Some (Inl e, blk, move, moves)
      | Inr ok \<Rightarrow>
          if ok then
            (case rotations 4 blk move moves of
               (blk', move', moves') \<Rightarrow> sweep_right board (right blk') (move' @ [''right'']) moves')
          else Some (Inr (), blk, move, moves))"

declare sweep_right.simps [code]

text \<open>
  The loop \<^verbatim>\<open>for thing in moves\<close> (lines 299-309). Its first statement calls
  \<^verbatim>\<open>block_copy()\<close>. Were a copy ever made, \<^verbatim>\<open>Block.do_commands\<close> would return None
  for \<^verbatim>\<open>b\<close>, and the next use of \<^verbatim>\<open>b\<close> (\<^verbatim>\<open>b.down()\<close>, \<^verbatim>\<open>b.up()\<close>, or
  \<^verbatim>\<open>board.place()\<close> after \<^verbatim>\<open>board.block = b\<close>) would raise AttributeError. So no
  iteration of this loop completes.
\<close>

fun place_moves :: "Board \<Rightarrow> Block \<Rightarrow> string list list \<Rightarrow> error + Board list" where
  "place_moves board blk [] = Inr []"
| "place_moves board blk (thing # rest) =
     (case block_copy blk of
        Inl e \<Rightarrow> Inl e
      | Inr c \<Rightarrow>
          (case Block_do_commands c thing of
             Inl e \<Rightarrow> Inl e
           | Inr _ \<Rightarrow> Inl AttributeError))"

text \<open>
  \<^verbatim>\<open>positions_by_dropping\<close> (lines 273-313). The value is the list of pairs
  \<^verbatim>\<open>zip(boards, moves)\<close> or the exception; with it comes the state of the caller's
  \<^verbatim>\<open>block\<close> object as the call leaves it. The flag \<^verbatim>\<open>generate_moves\<close> is not read.
\<close>

definition positions_by_dropping ::
    "Board \<Rightarrow> Block \<Rightarrow> bool \<Rightarrow> ((error + (Board \<times> string list) list) \<times> Block) option" where
  "positions_by_dropping board blk generate_moves =
     (case slide_left board blk [] of
        None \<Rightarrow> None
      | Some (Inl e, blk1, move1) \<Rightarrow> Some (Inl e, blk1)
      | Some (Inr _, blk1, move1) \<Rightarrow>
          (let blk2 = (if length move1 > 0 then right blk1 else blk1);
               move2 = (if length move1 > 0 then butlast move1 else move1)
           in case sweep_right board blk2 move2 [] of
                None \<Rightarrow> None
              | Some (Inl e, blk3, move3, moves) \<Rightarrow> Some (Inl e, blk3)
              | Some (Inr _, blk3, move3, moves) \<Rightarrow>
                  (let blk4 = (if length move3 > 0 then left blk3 else blk3)
                   in case place_moves board blk4 moves of
                        Inl e \<Rightarrow> Some (Inl e, blk4)
                      | Inr boards \<Rightarrow> Some (Inr (zip boards moves), blk4))))"

section \<open>The scorer\<close>

text \<open>
  \<^verbatim>\<open>visited = [[False] * columns] * rows\<close> (line 332) is a list of \<^verbatim>\<open>rows\<close> references
  to one and the same row of \<^verbatim>\<open>columns\<close> flags: an assignment \<^verbatim>\<open>visited[a][b] = True\<close>
  sets flag \<open>b\<close> of every row. The model keeps that one row, \<open>vrow\<close>, and the number of
  references.
\<close>

definition visited_get :: "nat \<Rightarrow> bool list \<Rightarrow> nat \<Rightarrow> nat \<Rightarrow> error + bool" where
  "visited_get nrows vrow a b =
     (if nrows \<le> a then Inl IndexError
      else if length vrow \<le> b then Inl IndexError
      else Inr (vrow ! b))"

definition bitmap_get :: "int list list \<Rightarrow> nat \<Rightarrow> nat \<Rightarrow> error + int" where
  "bitmap_get bm a b =
     (if length bm \<le> a then Inl IndexError
      else if length (bm ! a) \<le> b then Inl IndexError
      else Inr (bm ! a ! b))"

definition MOVES :: "(int \<times> int) list" where
  "MOVES = [(-1, 0), (1, 0), (0, 1), (0, -1)]"

text \<open>The loop \<^verbatim>\<open>for m in MOVES\<close> of the flood fill (lines 342-347).\<close>

fun visit_moves ::
    "int list list \<Rightarrow> nat \<Rightarrow> nat \<Rightarrow> int \<times> int \<Rightarrow> (int \<times> int) list \<Rightarrow> (int \<times> int) list \<Rightarrow> bool list \<Rightarrow>
     error + ((int \<times> int) list \<times> bool list)" where
  "visit_moves bm nrows columns s [] queue vrow = Inr (queue, vrow)"
| "visit_moves bm nrows columns s (m # ms) queue vrow =
     (let new_r = fst s + fst m; new_c = snd s + snd m in
      if 0 \<le> new_r \<and> new_r < int nrows \<and> 0 \<le> new_c \<and> new_c < int columns then
        (case visited_get nrows vrow (nat new_r) (nat new_c) of
           Inl e \<Rightarrow> Inl e
         | Inr v \<Rightarrow>
             if v then visit_moves bm nrows columns s ms queue vrow
             else
               (case bitmap_get bm (nat new_r) (nat new_c) of
                  Inl e \<Rightarrow> Inl e
                | Inr cell \<Rightarrow>
                    if cell = 0 then
                      visit_moves bm nrows columns s ms (queue @ [(new_r, new_c)]) (vrow[nat new_c := True])
                    else visit_moves bm nrows columns s ms queue vrow))
      else visit_moves bm nrows columns s ms queue vrow)"

text \<open>The loop \<^verbatim>\<open>while not len(queue) == 0\<close> (lines 339-347); \<open>sz\<close> is the counter
  \<^verbatim>\<open>size\<close>.\<close>

partial_function (option) flood ::
    "int list list \<Rightarrow> nat \<Rightarrow> nat \<Rightarrow> (int \<times> int) list \<Rightarrow> nat \<Rightarrow> bool list \<Rightarrow> (error + (nat \<times> bool list)) option" where
  "flood bm nrows columns queue sz vrow =
     (case queue of
        [] \<Rightarrow> Some (Inr (sz, vrow))
      | s # queue' \<Rightarrow>
          (case visit_moves bm nrows columns s MOVES queue' vrow of
             Inl e \<Rightarrow> Some (Inl e)
           | Inr (queue'', vrow') \<Rightarrow> flood bm nrows columns queue'' (sz + 1) vrow'))"

declare flood.simps [code]

text \<open>
  The loops \<^verbatim>\<open>for r in range(rows)\<close> and \<^verbatim>\<open>for c in range(columns)\<close> (lines 334-348).
  The test of line 336 subscripts with the column first: \<^verbatim>\<open>visited[c][r]\<close> and
  \<^verbatim>\<open>board.bitmap[c][r]\<close>.
\<close>

fun scan_columns ::
    "int list list \<Rightarrow> nat \<Rightarrow> nat \<Rightarrow> nat \<Rightarrow> nat list \<Rightarrow> bool list \<Rightarrow> nat list \<Rightarrow>
     (error + (bool list \<times> nat list)) option" where
  "scan_columns bm nrows columns r [] vrow spaces = Some (Inr (vrow, spaces))"
| "scan_columns bm nrows columns r (c # cs) vrow spaces =
     (case visited_get nrows vrow c r of
        Inl e \<Rightarrow> Some (Inl e)
      | Inr v \<Rightarrow>
          if v then scan_columns bm nrows columns r cs vrow spaces
          else
            (case bitmap_get bm c r of
               Inl e \<Rightarrow> Some (Inl e)
             | Inr cell \<Rightarrow>
                 if cell = 0 then
                   (case flood bm nrows columns [(int r, int c)] 0 vrow of
                      None \<Rightarrow> None
                    | Some (Inl e) \<Rightarrow> Some (Inl e)
                    | Some (Inr (sz, vrow')) \<Rightarrow>
                        scan_columns bm nrows columns r cs vrow' (spaces @ [sz]))
                 else scan_columns bm nrows columns r cs vrow spaces))"

fun scan_rows ::
    "int list list \<Rightarrow> nat \<Rightarrow> nat \<Rightarrow> nat list \<Rightarrow> bool list \<Rightarrow> nat list \<Rightarrow>
     (error + (bool list \<times> nat list)) option" where
  "scan_rows bm nrows columns [] vrow spaces = Some (Inr (vrow, spaces))"
| "scan_rows bm nrows columns (r # rs) vrow spaces =
     (case scan_columns bm nrows columns r [0..<columns] vrow spaces of
        None \<Rightarrow> None
      | Some (Inl e) \<Rightarrow> Some (Inl e)
      | Some (Inr (vrow', spaces')) \<Rightarrow> scan_rows bm nrows columns rs vrow' spaces')"

text \<open>
  \<^verbatim>\<open>board_score\<close> (lines 327-365). After the two loops, line 349 calls
  \<^verbatim>\<open>sorted(spaces.sort)\<close>: the argument is the bound method, not a list, and
  \<^verbatim>\<open>sorted\<close> raises TypeError. Nothing after line 349 is ever executed, so the function
  has no value of its own to return; the type of the score it would return is \<open>real\<close>.
\<close>

definition board_score :: "Board \<Rightarrow> (error + real) option" where
  "board_score board =
     (if bitmap board = [] then Some (Inl IndexError)
      else
        (case scan_rows (bitmap board) (length (bitmap board)) (length (bitmap board ! 0))
                [0..<length (bitmap board)] (replicate (length (bitmap board ! 0)) False) [] of
           None \<Rightarrow> None
         | Some (Inl e) \<Rightarrow> Some (Inl e)
         | Some (Inr (vrow, spaces)) \<Rightarrow> Some (Inl TypeError)))"

text \<open>
  The height loop of lines 356-358, for one column \<open>c\<close>, taken on its own:
  \<^verbatim>\<open>while board.bitmap[r][c] == 0 and r < rows: r += 1\<close>. The subscript is evaluated
  before the bound is compared. \<open>nrows\<close> is \<^verbatim>\<open>len(board.bitmap)\<close>.
\<close>

function column_height :: "int list list \<Rightarrow> nat \<Rightarrow> nat \<Rightarrow> nat \<Rightarrow> error + nat" where
  "column_height bm nrows c r =
     (case bitmap_get bm r c of
        Inl e \<Rightarrow> Inl e
      | Inr cell \<Rightarrow> if cell = 0 \<and> r < nrows then column_height bm nrows c (Suc r) else Inr r)"
  by pat_completeness auto
termination
  by (relation "measure (\<lambda>(bm, nrows, c, r). length bm - r)")
     (auto simp: bitmap_get_def split: if_splits)


section \<open>The search\<close>

definition MAX_DEPTH :: int where
  "MAX_DEPTH = 6"

text \<open>
  What \<^verbatim>\<open>search\<close> returns: the list \<^verbatim>\<open>best_moves\<close> at depth 0, a number otherwise.
\<close>

datatype search_result = Moves "string list" | Score real

text \<open>
  \<^verbatim>\<open>score > max_score\<close> (line 376), as Python 2 compares: two numbers by value, two lists
  lexicographically, and a list is greater than any number.
\<close>

fun py_gt :: "search_result \<Rightarrow> search_result \<Rightarrow> bool" where
  "py_gt (Score a) (Score b) = (a > b)"
| "py_gt (Moves a) (Score b) = True"
| "py_gt (Score a) (Moves b) = False"
| "py_gt (Moves a) (Moves b) = (a > b)"

text \<open>
  \<^verbatim>\<open>search\<close> (lines 368-381) and its loop over \<^verbatim>\<open>possible_moves\<close> (lines 374-378).
  The enumerator mutates the block it is given, and the recursive call is given
  \<^verbatim>\<open>preview[0]\<close>, so both functions return the state of the blocks they were given
  together with their value. \<^verbatim>\<open>preview[0]\<close> raises IndexError on an empty preview.
\<close>

function search ::
    "Board \<Rightarrow> Block \<Rightarrow> Block list \<Rightarrow> int \<Rightarrow> ((error + search_result) \<times> Block \<times> Block list) option"
  and search_loop ::
    "(Board \<times> string list) list \<Rightarrow> Block list \<Rightarrow> int \<Rightarrow> search_result \<Rightarrow> string list \<Rightarrow>
     ((error + search_result \<times> string list) \<times> Block list) option" where
  "search board blk pv depth =
     (if depth > MAX_DEPTH then
        (case board_score board of
           None \<Rightarrow> None
         | Some (Inl e) \<Rightarrow> Some (Inl e, blk, pv)
         | Some (Inr sc) \<Rightarrow> Some (Inr (Score sc), blk, pv))
      else
        (case positions_by_dropping board blk (depth = 0) of
           None \<Rightarrow> None
         | Some (Inl e, blk') \<Rightarrow> Some (Inl e, blk', pv)
         | Some (Inr possible_moves, blk') \<Rightarrow>
             (case search_loop possible_moves pv depth (Score 0) [] of
                None \<Rightarrow> None
              | Some (Inl e, pv') \<Rightarrow> Some (Inl e, blk', pv')
              | Some (Inr (max_score, best_moves), pv') \<Rightarrow>
                  if depth = 0 then Some (Inr (Moves best_moves), blk', pv')
                  else Some (Inr max_score, blk', pv'))))"
| "search_loop [] pv depth max_score best_moves = Some (Inr (max_score, best_moves), pv)"
| "search_loop ((new_board, move_list) # rest) pv depth max_score best_moves =
     (case pv of
        [] \<Rightarrow> Some (Inl IndexError, pv)
      | p # ps \<Rightarrow>
          (case search new_board p ps (depth + 1) of
             None \<Rightarrow> None
           | Some (Inl e, p', ps') \<Rightarrow> Some (Inl e, p' # ps')
           | Some (Inr score, p', ps') \<Rightarrow>
               if py_gt score max_score then search_loop rest (p' # ps') depth score move_list
               else search_loop rest (p' # ps') depth max_score best_moves))"
  by pat_completeness auto
termination
  by (relation "measures
        [\<lambda>x. case x of
            Inl (board, blk, pv, depth) \<Rightarrow>
              (if depth > MAX_DEPTH then 0 else 2 * nat (MAX_DEPTH + 1 - depth) + 2)
          | Inr (pms, pv, depth, max_score, best_moves) \<Rightarrow>
              2 * nat (MAX_DEPTH + 1 - depth) + 1,
         \<lambda>x. case x of
            Inl (board, blk, pv, depth) \<Rightarrow> 0
          | Inr (pms, pv, depth, max_score, best_moves) \<Rightarrow> length pms]")
     (auto simp: MAX_DEPTH_def)

section \<open>Concrete inputs\<close>

text \<open>
  The empty 33 by 12 grid, a two-cell horizontal piece spawning in columns 5 and 6, and
  boards built from them.
\<close>

definition empty_bitmap :: "int list list" where
  "empty_bitmap = replicate 33 (replicate 12 0)"

definition domino :: Block where
  "domino = \<lparr>center = \<lparr>pt_i = 0, pt_j = 5\<rparr>,
             offsets = [\<lparr>pt_i = 0, pt_j = 0\<rparr>, \<lparr>pt_i = 0, pt_j = 1\<rparr>],
             translation = \<lparr>pt_i = 0, pt_j = 0\<rparr>, rotation = 0\<rparr>"

definition empty_board :: Board where
  "empty_board = \<lparr>bitmap = empty_bitmap, block = domino, preview = []\<rparr>"

text \<open>The same board with its top row filled: the piece collides where it spawns.\<close>

definition blocked_board :: Board where
  "blocked_board = \<lparr>bitmap = empty_bitmap[0 := replicate 12 1], block = domino, preview = []\<rparr>"

text \<open>
  A board whose bottom row lacks only the two cells under the spawning piece, with one
  more piece in the preview.
\<close>

definition gap_board :: Board where
  "gap_board = \<lparr>bitmap = empty_bitmap[32 := [1, 1, 1, 1, 1, 0, 0, 1, 1, 1, 1, 1]],
                 block = domino, preview = [domino]\<rparr>"

text \<open>Six moves to the left take the piece off the board; the rest is never reached.\<close>

definition six_lefts :: "string list" where
  "six_lefts = [''left'', ''left'', ''left'', ''left'', ''left'', ''left'', ''drop'', ''right'']"

section \<open>Geometry: the rotation counter\<close>

lemma squares_Nil_iff: "squares p = [] \<longleftrightarrow> offsets p = []"
  by (simp add: squares_def)

text \<open>
  Adding 4 to the rotation counter keeps the parity and lowers the multiplier by 4, so the
  squares stay where they are only for offsets that are all zero.
\<close>

lemma squares_rotation_plus_four:
  "squares (p\<lparr>rotation := r + 4\<rparr>) = squares (p\<lparr>rotation := r\<rparr>) \<longleftrightarrow>
   (\<forall>off\<in>set (offsets p). pt_i off = 0 \<and> pt_j off = 0)"
proof -
  have par: "(r + 4) mod 2 = r mod 2" by presburger
  show ?thesis
    by (auto simp: squares_def par)
qed

text \<open>
  Claim C7 (4-fold periodicity of the rotation counter) fails on the code: the counter is
  never reduced modulo 4, and \<^verbatim>\<open>squares\<close> multiplies the offsets by \<open>1 - rotation\<close>.
  For the two-cell piece, rotation 0 gives the cells (0,5) and (0,6); rotation 4 gives
  (0,5) and (0,2).
\<close>

theorem squares_rotation_four_differs:
  "squares (domino\<lparr>rotation := 0\<rparr>) = [\<lparr>pt_i = 0, pt_j = 5\<rparr>, \<lparr>pt_i = 0, pt_j = 6\<rparr>] \<and>
   squares (domino\<lparr>rotation := 4\<rparr>) = [\<lparr>pt_i = 0, pt_j = 5\<rparr>, \<lparr>pt_i = 0, pt_j = 2\<rparr>]"
  by (simp add: squares_def domino_def)

section \<open>Legality\<close>

lemma wf_row: "wf_bitmap bm \<Longrightarrow> r < 33 \<Longrightarrow> length (bm ! r) = 12"
  by (simp add: wf_bitmap_def list_all_length)

lemma check_squares_wf:
  assumes "wf_bitmap bm"
  shows "check_squares bm sqs =
         Inr (\<forall>sq\<in>set sqs. 0 \<le> pt_i sq \<and> pt_i sq < 33 \<and> 0 \<le> pt_j sq \<and> pt_j sq < 12 \<and>
                 bm ! nat (pt_i sq) ! nat (pt_j sq) = 0)"
proof (induction sqs)
  case Nil
  show ?case by simp
next
  case (Cons sq sqs)
  have len: "length bm = 33" using assms by (simp add: wf_bitmap_def)
  show ?case
  proof (cases "0 \<le> pt_i sq \<and> pt_i sq < 33 \<and> 0 \<le> pt_j sq \<and> pt_j sq < 12")
    case False
    then show ?thesis by (auto simp: rows_def cols_def)
  next
    case True
    then have r: "nat (pt_i sq) < 33" and c: "nat (pt_j sq) < 12" by auto
    have "length (bm ! nat (pt_i sq)) = 12" using wf_row[OF assms r] .
    with True r c len Cons.IH show ?thesis by (auto simp: rows_def cols_def)
  qed
qed

lemma check_wf_legal:
  assumes "wf_bitmap (bitmap self)" and "check self blk = Inr True"
  shows "\<forall>sq\<in>set (squares blk). 0 \<le> pt_i sq \<and> pt_i sq < 33 \<and> 0 \<le> pt_j sq \<and> pt_j sq < 12 \<and>
           bitmap self ! nat (pt_i sq) ! nat (pt_j sq) = 0"
  using assms(2) check_squares_wf[OF assms(1), of "squares blk"] by (simp add: check_def)

lemma check_wf_cases:
  assumes "wf_bitmap (bitmap self)"
  shows "check self blk = Inr True \<or> check self blk = Inr False"
  using check_squares_wf[OF assms, of "squares blk"] by (auto simp: check_def)

lemma wf_empty_bitmap: "wf_bitmap empty_bitmap"
  by (simp add: wf_bitmap_def empty_bitmap_def list_all_length)

text \<open>
  Claim C3: on a board of the game (33 rows of 12 cells), \<^verbatim>\<open>check(piece)\<close> returns a
  boolean, and it is true if and only if every position of \<^verbatim>\<open>piece.squares()\<close> has its
  row in [0,33), its column in [0,12) and an unoccupied cell. Neither \<^verbatim>\<open>Board.check\<close>
  nor \<^verbatim>\<open>Block.squares\<close> assigns to anything but local variables, which is why the model
  of the call is a function of board and piece that returns the answer alone.
\<close>

theorem check_legal_iff:
  assumes "wf_bitmap (bitmap board)"
  shows "check board piece =
         Inr (\<forall>sq\<in>set (squares piece).
                0 \<le> pt_i sq \<and> pt_i sq < 33 \<and> 0 \<le> pt_j sq \<and> pt_j sq < 12 \<and>
                bitmap board ! nat (pt_i sq) ! nat (pt_j sq) = 0)"
  unfolding check_def by (rule check_squares_wf[OF assms])

theorem check_legal_iff_witness:
  "check empty_board domino = Inr True \<and> check blocked_board domino = Inr False"
proof -
  have e: "wf_bitmap (bitmap empty_board)"
    by (simp add: empty_board_def wf_empty_bitmap)
  have b: "wf_bitmap (bitmap blocked_board)"
    by (simp add: blocked_board_def wf_bitmap_def empty_bitmap_def list_all_length nth_list_update)
  from check_legal_iff[OF e, of domino] check_legal_iff[OF b, of domino] show ?thesis
    by (simp add: squares_def domino_def empty_board_def blocked_board_def empty_bitmap_def)
qed

section \<open>The height loop of the scorer\<close>

text \<open>
  A column whose cells are all empty: the loop walks off the bitmap, because the cell is
  read before \<open>r < rows\<close> is tested.
\<close>

lemma column_height_empty_from:
  assumes "\<forall>r'<length bm. r \<le> r' \<longrightarrow> c < length (bm ! r') \<and> bm ! r' ! c = 0"
  shows "column_height bm (length bm) c r = Inl IndexError"
  using assms
proof (induction "length bm - r" arbitrary: r)
  case 0
  then have "length bm \<le> r" by simp
  then show ?case by (subst column_height.simps) (simp add: bitmap_get_def)
next
  case (Suc n)
  then have lt: "r < length bm" by simp
  with Suc.prems have "c < length (bm ! r)" and "bm ! r ! c = 0" by auto
  with lt have cell: "bitmap_get bm r c = Inr 0" by (simp add: bitmap_get_def)
  have "n = length bm - Suc r" using Suc.hyps(2) by simp
  moreover have "\<forall>r'<length bm. Suc r \<le> r' \<longrightarrow> c < length (bm ! r') \<and> bm ! r' ! c = 0"
    using Suc.prems by simp
  ultimately have "column_height bm (length bm) c (Suc r) = Inl IndexError"
    by (rule Suc.hyps(1))
  then show ?case using cell lt by (subst column_height.simps) simp
qed

text \<open>A column with an occupied cell: the loop stops at the first one from the top.\<close>

lemma column_height_first_from:
  assumes "k < length bm" "r \<le> k" "c < length (bm ! k)" "bm ! k ! c \<noteq> 0"
    and "\<forall>r'<k. r \<le> r' \<longrightarrow> c < length (bm ! r') \<and> bm ! r' ! c = 0"
  shows "column_height bm (length bm) c r = Inr k"
  using assms(2,5)
proof (induction "k - r" arbitrary: r)
  case 0
  then have "r = k" by simp
  with assms(1,3,4) show ?case by (subst column_height.simps) (simp add: bitmap_get_def)
next
  case (Suc n)
  then have lt: "r < k" by simp
  with Suc.prems have "c < length (bm ! r)" and "bm ! r ! c = 0" by auto
  with lt assms(1) have cell: "bitmap_get bm r c = Inr 0" by (simp add: bitmap_get_def)
  have "n = k - Suc r" using Suc.hyps(2) by simp
  moreover have "Suc r \<le> k" using lt by simp
  moreover have "\<forall>r'<k. Suc r \<le> r' \<longrightarrow> c < length (bm ! r') \<and> bm ! r' ! c = 0"
    using Suc.prems by simp
  ultimately have "column_height bm (length bm) c (Suc r) = Inr k"
    by (rule Suc.hyps(1))
  then show ?case using cell lt assms(1) by (subst column_height.simps) simp
qed

lemma column_height_empty_column:
  assumes "wf_bitmap bm" "c < 12" "\<forall>r<33. bm ! r ! c = 0"
  shows "column_height bm 33 c 0 = Inl IndexError"
proof -
  have len: "length bm = 33" using assms(1) by (simp add: wf_bitmap_def)
  have "\<forall>r'<length bm. 0 \<le> r' \<longrightarrow> c < length (bm ! r') \<and> bm ! r' ! c = 0"
    using assms len by (simp add: wf_row)
  from column_height_empty_from[OF this] len show ?thesis by simp
qed


section \<open>The scorer never returns\<close>

lemma board_score_no_value: "board_score board \<noteq> Some (Inr sc)"
  by (auto simp: board_score_def split: option.splits sum.splits)

text \<open>
  On a board of the game the flood fill itself raises nothing and ends: every cell put on
  the queue sets a flag of the one shared row that was clear before. The scan over the
  rows then fails at \<open>r = 12\<close>.
\<close>

lemma unvisited_update:
  "c < length vrow \<Longrightarrow> \<not> vrow ! c \<Longrightarrow>
   Suc (length (filter Not (vrow[c := True]))) = length (filter Not vrow)"
proof (induction vrow arbitrary: c)
  case Nil
  then show ?case by simp
next
  case (Cons v vs)
  then show ?case by (cases c) auto
qed

lemma visit_moves_ok:
  assumes "wf_bitmap bm" and "length vrow = 12"
  shows "\<exists>queue' vrow'. visit_moves bm 33 12 s ms queue vrow = Inr (queue', vrow') \<and>
           length vrow' = 12 \<and> length queue \<le> length queue' \<and>
           length queue' + length (filter Not vrow') = length queue + length (filter Not vrow)"
  using assms(2)
proof (induction ms arbitrary: queue vrow)
  case Nil
  then show ?case by simp
next
  case (Cons m ms)
  let ?r = "fst s + fst m" and ?c = "snd s + snd m"
  show ?case
  proof (cases "0 \<le> ?r \<and> ?r < 33 \<and> 0 \<le> ?c \<and> ?c < 12")
    case False
    then have "visit_moves bm 33 12 s (m # ms) queue vrow = visit_moves bm 33 12 s ms queue vrow"
      by (auto simp: Let_def)
    with Cons.IH[OF Cons.prems] show ?thesis by simp
  next
    case True
    then have r: "nat ?r < 33" and c: "nat ?c < 12" by auto
    have len: "length bm = 33" using assms(1) by (simp add: wf_bitmap_def)
    have rowlen: "length (bm ! nat ?r) = 12" using wf_row[OF assms(1) r] .
    have vg: "visited_get 33 vrow (nat ?r) (nat ?c) = Inr (vrow ! nat ?c)"
      using r c Cons.prems by (simp add: visited_get_def)
    have bg: "bitmap_get bm (nat ?r) (nat ?c) = Inr (bm ! nat ?r ! nat ?c)"
      using r c len rowlen by (simp add: bitmap_get_def)
    show ?thesis
    proof (cases "\<not> vrow ! nat ?c \<and> bm ! nat ?r ! nat ?c = 0")
      case False
      then have "visit_moves bm 33 12 s (m # ms) queue vrow = visit_moves bm 33 12 s ms queue vrow"
        using True vg bg by (auto simp: Let_def)
      with Cons.IH[OF Cons.prems] show ?thesis by simp
    next
      case new: True
      let ?vrow = "vrow[nat ?c := True]" and ?queue = "queue @ [(?r, ?c)]"
      have step: "visit_moves bm 33 12 s (m # ms) queue vrow = visit_moves bm 33 12 s ms ?queue ?vrow"
        using True vg bg new by (simp add: Let_def)
      have l: "length ?vrow = 12" using Cons.prems by simp
      have cnt: "Suc (length (filter Not ?vrow)) = length (filter Not vrow)"
        using new c Cons.prems by (intro unvisited_update) simp_all
      from Cons.IH[OF l, of ?queue] obtain queue' vrow' where
        r': "visit_moves bm 33 12 s ms ?queue ?vrow = Inr (queue', vrow')" "length vrow' = 12"
            "length ?queue \<le> length queue'"
            "length queue' + length (filter Not vrow') = length ?queue + length (filter Not ?vrow)"
        by blast
      from r'(4) cnt have "length queue' + length (filter Not vrow') = length queue + length (filter Not vrow)"
        by simp
      moreover from r'(3) have "length queue \<le> length queue'" by simp
      ultimately show ?thesis using step r'(1,2) by simp
    qed
  qed
qed

lemma flood_total:
  assumes "wf_bitmap bm" and "length vrow = 12"
  shows "\<exists>sz' vrow'. flood bm 33 12 queue sz vrow = Some (Inr (sz', vrow')) \<and> length vrow' = 12"
  using assms(2)
proof (induction "length queue + 2 * length (filter Not vrow)" arbitrary: queue sz vrow rule: less_induct)
  case less
  show ?case
  proof (cases queue)
    case Nil
    then show ?thesis using less.prems by (subst flood.simps) simp
  next
    case (Cons s queue0)
    from visit_moves_ok[OF assms(1) less.prems, of s MOVES queue0] obtain queue' vrow' where
      v: "visit_moves bm 33 12 s MOVES queue0 vrow = Inr (queue', vrow')" "length vrow' = 12"
         "length queue0 \<le> length queue'"
         "length queue' + length (filter Not vrow') = length queue0 + length (filter Not vrow)"
      by blast
    have "length queue' + 2 * length (filter Not vrow') < length queue + 2 * length (filter Not vrow)"
      using v(3,4) Cons by simp
    from less.hyps[OF this v(2), of "sz + 1"] obtain sz' vrow'' where
      "flood bm 33 12 queue' (sz + 1) vrow' = Some (Inr (sz', vrow''))" "length vrow'' = 12"
      by blast
    then show ?thesis using Cons v(1) by (subst flood.simps) simp
  qed
qed

lemma scan_columns_ok:
  assumes "wf_bitmap bm" and "length vrow = 12" and "r < 12" and "\<forall>c\<in>set cs. c < 12"
  shows "\<exists>vrow' spaces'. scan_columns bm 33 12 r cs vrow spaces = Some (Inr (vrow', spaces')) \<and>
           length vrow' = 12"
  using assms(2,4)
proof (induction cs arbitrary: vrow spaces)
  case Nil
  then show ?case by simp
next
  case (Cons c cs)
  then have c: "c < 12" and cs: "\<forall>c\<in>set cs. c < 12" by auto
  have len: "length bm = 33" using assms(1) by (simp add: wf_bitmap_def)
  have rowlen: "length (bm ! c) = 12" using wf_row[OF assms(1), of c] c by simp
  have vg: "visited_get 33 vrow c r = Inr (vrow ! r)"
    using c assms(3) Cons.prems(1) by (simp add: visited_get_def)
  have bg: "bitmap_get bm c r = Inr (bm ! c ! r)"
    using c assms(3) len rowlen by (simp add: bitmap_get_def)
  show ?case
  proof (cases "\<not> vrow ! r \<and> bm ! c ! r = 0")
    case False
    then have "scan_columns bm 33 12 r (c # cs) vrow spaces = scan_columns bm 33 12 r cs vrow spaces"
      using vg bg by auto
    with Cons.IH[OF Cons.prems(1) cs] show ?thesis by simp
  next
    case True
    from flood_total[OF assms(1) Cons.prems(1), of "[(int r, int c)]" 0] obtain sz' vrow' where
      f: "flood bm 33 12 [(int r, int c)] 0 vrow = Some (Inr (sz', vrow'))" "length vrow' = 12"
      by blast
    have "scan_columns bm 33 12 r (c # cs) vrow spaces = scan_columns bm 33 12 r cs vrow' (spaces @ [sz'])"
      using vg bg True f(1) by simp
    with Cons.IH[OF f(2) cs] show ?thesis by simp
  qed
qed

lemma scan_columns_row_12:
  assumes "length vrow = 12"
  shows "scan_columns bm 33 12 12 [0..<12] vrow spaces = Some (Inl IndexError)"
proof -
  have "[0..<12] = 0 # [1..<12]" by (simp add: upt_conv_Cons)
  moreover have "visited_get 33 vrow 0 12 = Inl IndexError"
    using assms by (simp add: visited_get_def)
  ultimately show ?thesis by simp
qed

lemma scan_rows_raises:
  assumes "wf_bitmap bm" and "length vrow = 12" and "\<forall>r\<in>set rs. r < 12"
  shows "scan_rows bm 33 12 (rs @ 12 # rest) vrow spaces = Some (Inl IndexError)"
  using assms(2,3)
proof (induction rs arbitrary: vrow spaces)
  case Nil
  then show ?case by (simp add: scan_columns_row_12)
next
  case (Cons r rs)
  then have r: "r < 12" and rs: "\<forall>r\<in>set rs. r < 12" by auto
  from scan_columns_ok[OF assms(1) Cons.prems(1) r, of "[0..<12]" spaces] obtain vrow' spaces' where
    s: "scan_columns bm 33 12 r [0..<12] vrow spaces = Some (Inr (vrow', spaces'))" "length vrow' = 12"
    by auto
  from Cons.IH[OF s(2) rs] s(1) show ?case by simp
qed

lemma board_score_raises:
  assumes "wf_bitmap (bitmap board)"
  shows "board_score board = Some (Inl IndexError)"
proof -
  have len: "length (bitmap board) = 33" using assms by (simp add: wf_bitmap_def)
  then have ne: "bitmap board \<noteq> []" by auto
  have row0: "length (bitmap board ! 0) = 12" using wf_row[OF assms, of 0] by simp
  have "[0..<33] = [0..<12] @ 12 # [13..<33]"
    using upt_add_eq_append[of 0 12 21] by (simp add: upt_conv_Cons)
  then have "scan_rows (bitmap board) 33 12 [0..<33] (replicate 12 False) [] = Some (Inl IndexError)"
    using scan_rows_raises[OF assms, of "replicate 12 False" "[0..<12]" "[13..<33]" "[]"] by simp
  with ne len row0 show ?thesis by (simp add: board_score_def)
qed

text \<open>
  Claim C2 (the enclosed-space term partitions the empty cells into 4-connected
  components, drops the largest and charges the others) fails on the code. On the empty
  33 by 12 board the first flood fill, started at (0,0), marks through the shared row of
  \<^verbatim>\<open>visited\<close> and stops with one component of 13 cells; the scan then reaches
  \<open>r = 12\<close> and \<^verbatim>\<open>visited[0][12]\<close> raises IndexError, since the flags are subscripted
  column first and a row of flags has 12 entries. No score is computed.
\<close>

theorem board_score_empty_board_raises:
  "board_score empty_board = Some (Inl IndexError) \<and>
   flood empty_bitmap 33 12 [(0, 0)] 0 (replicate 12 False) = Some (Inr (13, replicate 12 True))"
  by code_simp

section \<open>The enumerator and the search\<close>

lemma block_copy_raises: "block_copy blk = Inl TypeError"
  by (simp add: block_copy_def Block_init_def make_point_def)

lemma place_moves_Inr: "place_moves board blk moves = Inr boards \<Longrightarrow> moves = [] \<and> boards = []"
  by (cases moves) (auto simp: block_copy_raises)

text \<open>Whenever the enumerator returns a list at all, the list is empty.\<close>

lemma positions_by_dropping_Inr:
  assumes "positions_by_dropping board blk g = Some (Inr pms, blk')"
  shows "pms = []"
  using assms
  by (auto simp: positions_by_dropping_def Let_def
           split: option.splits sum.splits prod.splits if_splits dest!: place_moves_Inr)

lemma offsets_left [simp]: "offsets (left p) = offsets p"
  by (simp add: left_def)

lemma offsets_right [simp]: "offsets (right p) = offsets p"
  by (simp add: right_def)

lemma offsets_rotate_block [simp]: "offsets (rotate_block p) = offsets p"
  by (simp add: rotate_block_def)

lemma rotation_left [simp]: "rotation (left p) = rotation p"
  by (simp add: left_def)

lemma rotation_right [simp]: "rotation (right p) = rotation p"
  by (simp add: right_def)

lemma right_left [simp]: "right (left p) = p"
  by (simp add: left_def right_def)

lemma squares_left: "squares (left p) = map (\<lambda>sq. sq\<lparr>pt_j := pt_j sq - 1\<rparr>) (squares p)"
  by (simp add: squares_def left_def)

lemma slide_left_total:
  assumes wf: "wf_bitmap (bitmap board)" and ne: "offsets blk \<noteq> []"
  shows "\<exists>k. slide_left board blk move = Some (Inr (), (left ^^ k) blk, move @ replicate k ''left'') \<and>
             check board ((left ^^ k) blk) = Inr False \<and>
             (\<forall>n<k. check board ((left ^^ n) blk) = Inr True)"
  using ne
proof (induction "nat (pt_j (hd (squares blk)) + 1)" arbitrary: blk move rule: less_induct)
  case less
  show ?case
  proof (cases "check board blk = Inr True")
    case False
    with check_wf_cases[OF wf, of blk] have f: "check board blk = Inr False" by blast
    have "slide_left board blk move = Some (Inr (), blk, move)"
      by (subst slide_left.simps) (simp add: f)
    with f show ?thesis by (intro exI[of _ 0]) simp
  next
    case True
    from less.prems have sq: "squares blk \<noteq> []" by (simp add: squares_Nil_iff)
    then have "hd (squares blk) \<in> set (squares blk)" by simp
    with check_wf_legal[OF wf True] have b: "0 \<le> pt_j (hd (squares blk))" by auto
    have "hd (squares (left blk)) = (hd (squares blk))\<lparr>pt_j := pt_j (hd (squares blk)) - 1\<rparr>"
      using sq by (simp add: squares_left hd_map)
    then have "nat (pt_j (hd (squares (left blk))) + 1) < nat (pt_j (hd (squares blk)) + 1)"
      using b by simp
    from less.hyps[OF this, of "move @ [''left'']"] less.prems obtain k where
      k: "slide_left board (left blk) (move @ [''left'']) =
            Some (Inr (), (left ^^ k) (left blk), (move @ [''left'']) @ replicate k ''left'')"
         "check board ((left ^^ k) (left blk)) = Inr False"
         "\<forall>n<k. check board ((left ^^ n) (left blk)) = Inr True"
      by auto
    have "slide_left board blk move = Some (Inr (), (left ^^ Suc k) blk, move @ replicate (Suc k) ''left'')"
      by (subst slide_left.simps) (simp add: True k(1) funpow_swap1)
    moreover have "check board ((left ^^ Suc k) blk) = Inr False"
      using k(2) by (simp add: funpow_swap1)
    moreover have "\<forall>n<Suc k. check board ((left ^^ n) blk) = Inr True"
    proof (intro allI impI)
      fix n assume "n < Suc k"
      show "check board ((left ^^ n) blk) = Inr True"
      proof (cases n)
        case 0
        then show ?thesis using True by simp
      next
        case (Suc m)
        with \<open>n < Suc k\<close> k(3) show ?thesis by (simp add: funpow_swap1)
      qed
    qed
    ultimately show ?thesis by blast
  qed
qed

text \<open>One round of the second loop: four rotations and one step to the right.\<close>

lemma rotations_four:
  "rotations 4 blk move moves =
     (blk\<lparr>rotation := rotation blk + 4\<rparr>,
      move @ [''rotate'', ''rotate'', ''rotate'', ''rotate''],
      moves @ [move, move @ [''rotate''], move @ [''rotate'', ''rotate''],
               move @ [''rotate'', ''rotate'', ''rotate'']])"
  by (simp add: eval_nat_numeral rotate_block_def)

lemma hd_squares_round:
  assumes "offsets blk \<noteq> []"
  shows "pt_j (hd (squares (right (blk\<lparr>rotation := rotation blk + 4\<rparr>)))) =
         pt_j (hd (squares blk)) +
           (if rotation blk mod 2 \<noteq> 0 then 1 + 4 * pt_i (hd (offsets blk))
            else 1 - 4 * pt_j (hd (offsets blk)))"
proof -
  have par: "(rotation blk + 4) mod 2 = rotation blk mod 2" by presburger
  show ?thesis using assms
    by (simp add: squares_def right_def hd_map par algebra_simps)
qed

lemma sweep_right_total:
  assumes wf: "wf_bitmap (bitmap board)" and ne: "offsets blk \<noteq> []"
  shows "\<exists>k blk' move' moves'.
           sweep_right board blk move moves = Some (Inr (), blk', move', moves') \<and>
           rotation blk' = rotation blk + 4 * int k \<and>
           length move \<le> length move' \<and> length moves \<le> length moves' \<and>
           (check board blk = Inr True \<longrightarrow> 0 < k \<and> move' \<noteq> [] \<and> moves' \<noteq> [])"
  using ne
proof (induction "nat (if (if rotation blk mod 2 \<noteq> 0 then 1 + 4 * pt_i (hd (offsets blk))
                             else 1 - 4 * pt_j (hd (offsets blk))) > 0
                       then 12 - pt_j (hd (squares blk)) else pt_j (hd (squares blk)) + 1)"
         arbitrary: blk move moves rule: less_induct)
  case less
  let ?d = "\<lambda>b. if rotation b mod 2 \<noteq> 0 then 1 + 4 * pt_i (hd (offsets b)) else 1 - 4 * pt_j (hd (offsets b))"
  show ?case
  proof (cases "check board blk = Inr True")
    case False
    with check_wf_cases[OF wf, of blk] have f: "check board blk = Inr False" by blast
    have "sweep_right board blk move moves = Some (Inr (), blk, move, moves)"
      by (subst sweep_right.simps) (simp add: f)
    with f show ?thesis by (intro exI[of _ 0]) simp
  next
    case True
    let ?next = "right (blk\<lparr>rotation := rotation blk + 4\<rparr>)"
    let ?move = "(move @ [''rotate'', ''rotate'', ''rotate'', ''rotate'']) @ [''right'']"
    let ?moves = "moves @ [move, move @ [''rotate''], move @ [''rotate'', ''rotate''],
               move @ [''rotate'', ''rotate'', ''rotate'']]"
    from less.prems have sq: "squares blk \<noteq> []" by (simp add: squares_Nil_iff)
    then have "hd (squares blk) \<in> set (squares blk)" by simp
    with check_wf_legal[OF wf True]
    have b: "0 \<le> pt_j (hd (squares blk))" "pt_j (hd (squares blk)) < 12" by auto
    have par: "(rotation blk + 4) mod 2 = rotation blk mod 2" by presburger
    have d_same: "?d ?next = ?d blk" by (simp add: par right_def)
    have d_nz: "?d blk \<noteq> 0" by presburger
    have col: "pt_j (hd (squares ?next)) = pt_j (hd (squares blk)) + ?d blk"
      using hd_squares_round[OF less.prems] .
    have ne': "offsets ?next \<noteq> []" using less.prems by simp
    have dec: "nat (if ?d ?next > 0 then 12 - pt_j (hd (squares ?next)) else pt_j (hd (squares ?next)) + 1)
             < nat (if ?d blk > 0 then 12 - pt_j (hd (squares blk)) else pt_j (hd (squares blk)) + 1)"
      unfolding d_same col using b d_nz by (cases "?d blk > 0") auto
    from less.hyps[OF dec ne', of ?move ?moves] obtain k blk' move' moves' where
      r: "sweep_right board ?next ?move ?moves = Some (Inr (), blk', move', moves')"
         "rotation blk' = rotation ?next + 4 * int k"
         "length ?move \<le> length move'" "length ?moves \<le> length moves'"
      by blast
    have "sweep_right board blk move moves = Some (Inr (), blk', move', moves')"
      using r(1) by (subst sweep_right.simps) (simp add: True rotations_four)
    moreover have "rotation blk' = rotation blk + 4 * int (Suc k)" using r(2) by simp
    moreover have "length move \<le> length move'" "length moves \<le> length moves'"
      using r(3,4) by simp_all
    moreover have "move' \<noteq> [] \<and> moves' \<noteq> []" using r(3,4) by auto
    ultimately show ?thesis by (intro exI[of _ "Suc k"]) auto
  qed
qed


text \<open>
  On a board of the game, a piece that is legal when the enumerator is called is slid,
  rotated at least four times and left that way; the call ends in the TypeError of
  \<^verbatim>\<open>block_copy\<close>.
\<close>

lemma positions_by_dropping_legal:
  assumes wf: "wf_bitmap (bitmap board)" and ne: "offsets blk \<noteq> []"
    and legal: "check board blk = Inr True"
  shows "\<exists>blk'. positions_by_dropping board blk g = Some (Inl TypeError, blk') \<and>
                 rotation blk + 4 \<le> rotation blk'"
proof -
  from slide_left_total[OF wf ne, of "[]"] obtain k0 where
    s: "slide_left board blk [] = Some (Inr (), (left ^^ k0) blk, [] @ replicate k0 ''left'')"
       "check board ((left ^^ k0) blk) = Inr False"
       "\<forall>n<k0. check board ((left ^^ n) blk) = Inr True"
    by blast
  from s(2) legal have "k0 \<noteq> 0" by (cases k0) auto
  then obtain k where k: "k0 = Suc k" by (cases k0) auto
  let ?blk2 = "(left ^^ k) blk"
  have legal2: "check board ?blk2 = Inr True" using s(3) k by simp
  have ne2: "offsets ?blk2 \<noteq> []" using ne by (induction k) simp_all
  have rot2: "rotation ?blk2 = rotation blk" by (induction k) simp_all
  from sweep_right_total[OF wf ne2, of "butlast (replicate k0 ''left'')" "[]"] legal2
  obtain n blk3 move3 moves where
    w: "sweep_right board ?blk2 (butlast (replicate k0 ''left'')) [] = Some (Inr (), blk3, move3, moves)"
       "rotation blk3 = rotation ?blk2 + 4 * int n" "0 < n" "move3 \<noteq> []" "moves \<noteq> []"
    by blast
  obtain thing rest where m: "moves = thing # rest" using w(5) by (cases moves) auto
  have pm: "place_moves board (left blk3) moves = Inl TypeError"
    by (simp add: m block_copy_raises)
  have "positions_by_dropping board blk g = Some (Inl TypeError, left blk3)"
    using s(1) w(1,4) pm by (simp add: positions_by_dropping_def k Let_def)
  moreover have "rotation blk + 4 \<le> rotation (left blk3)"
    using w(2,3) rot2 by simp
  ultimately show ?thesis by blast
qed

text \<open>A piece that is not legal when the enumerator is called is left alone: no placement.\<close>

lemma positions_by_dropping_illegal:
  assumes "check board blk = Inr False"
  shows "positions_by_dropping board blk g = Some (Inr [], blk)"
proof -
  have "slide_left board blk [] = Some (Inr (), blk, [])"
    by (subst slide_left.simps) (simp add: assms)
  moreover have "sweep_right board blk [] [] = Some (Inr (), blk, [], [])"
    by (subst sweep_right.simps) (simp add: assms)
  ultimately show ?thesis by (simp add: positions_by_dropping_def)
qed

text \<open>With no placement, a search at a depth from 1 to \<open>MAX_DEPTH\<close> returns the number 0.\<close>

lemma search_no_placements:
  assumes "0 < depth" "depth \<le> MAX_DEPTH"
    and "positions_by_dropping board blk False = Some (Inr [], blk')"
  shows "search board blk pv depth = Some (Inr (Score 0), blk', pv)"
  using assms by simp

lemma search_legal_raises:
  assumes "wf_bitmap (bitmap board)" and "offsets blk \<noteq> []" and "check board blk = Inr True"
    and "depth \<le> MAX_DEPTH"
  shows "\<exists>blk'. search board blk pv depth = Some (Inl TypeError, blk', pv)"
proof -
  from positions_by_dropping_legal[OF assms(1-3), of "depth = 0"] obtain blk' where
    "positions_by_dropping board blk (depth = 0) = Some (Inl TypeError, blk')" by blast
  with assms(4) show ?thesis by simp
qed

lemma search_beyond_max_depth:
  assumes "wf_bitmap (bitmap board)" and "MAX_DEPTH < depth"
  shows "search board blk pv depth = Some (Inl IndexError, blk, pv)"
  using assms(2) board_score_raises[OF assms(1)] by simp

text \<open>
  Claim C1 (a branch without placements is scored with a worst-case sentinel, negative
  infinity, not zero) fails on the code: \<^verbatim>\<open>max_score\<close> starts at 0 and is what the
  search returns when the loop over the placements has nothing to do. On the board whose
  top row is filled the piece collides where it spawns, the enumerator returns the empty
  list, and the search at depth 1 returns 0.
\<close>

theorem search_no_placements_scores_zero:
  "positions_by_dropping blocked_board domino False = Some (Inr [], domino) \<and>
   search blocked_board domino [] 1 = Some (Inr (Score 0), domino, [])"
  by code_simp

text \<open>
  Claim C8 (the enumerator leaves the caller's board and piece alone and mutates only a
  private copy of the piece) fails on the code: the two sweeps call \<^verbatim>\<open>left\<close>,
  \<^verbatim>\<open>right\<close> and \<^verbatim>\<open>rotate\<close> on the \<^verbatim>\<open>block\<close> argument itself, and \<^verbatim>\<open>block_copy\<close>
  is first called afterwards, where it raises TypeError. On the empty board the piece that
  was passed with translation (0,0) and rotation 0 is left with translation (0,-5) and
  rotation 4.
\<close>

theorem positions_by_dropping_mutates_block:
  "positions_by_dropping empty_board domino True =
     Some (Inl TypeError, domino\<lparr>translation := \<lparr>pt_i = 0, pt_j = - 5\<rparr>, rotation := 4\<rparr>)"
  by code_simp

section \<open>The lock transition: marking and row removal\<close>

lemma wf_bitmap_update:
  assumes "wf_bitmap bm" "length row = 12"
  shows "wf_bitmap (bm[r := row])"
proof (cases "r < length bm")
  case True
  with assms show ?thesis by (auto simp: wf_bitmap_def list_all_length nth_list_update)
next
  case False
  then have "bm[r := row] = bm" by (simp add: list_update_beyond)
  with assms show ?thesis by simp
qed

lemma py_index_in_range: "0 \<le> k \<Longrightarrow> k < int n \<Longrightarrow> py_index n k = Some (nat k)"
  by (simp add: py_index_def)

lemma mark_squares_wf:
  assumes "wf_bitmap bm"
    and "\<forall>sq\<in>set sqs. 0 \<le> pt_i sq \<and> pt_i sq < 33 \<and> 0 \<le> pt_j sq \<and> pt_j sq < 12"
  shows "\<exists>marked. mark_squares bm sqs = Inr marked \<and> wf_bitmap marked \<and>
           (\<forall>r<33. \<forall>c<12. marked ! r ! c =
              (if \<exists>sq\<in>set sqs. nat (pt_i sq) = r \<and> nat (pt_j sq) = c then 1 else bm ! r ! c))"
  using assms
proof (induction sqs arbitrary: bm)
  case Nil
  then show ?case by simp
next
  case (Cons sq sqs)
  let ?r = "nat (pt_i sq)" and ?c = "nat (pt_j sq)"
  let ?bm' = "bm[?r := (bm ! ?r)[?c := 1]]"
  from Cons.prems have b: "0 \<le> pt_i sq" "pt_i sq < 33" "0 \<le> pt_j sq" "pt_j sq < 12" by auto
  then have r: "?r < 33" and c: "?c < 12" by auto
  have len: "length bm = 33" using Cons.prems(1) by (simp add: wf_bitmap_def)
  have rowlen: "length (bm ! ?r) = 12" using wf_row[OF Cons.prems(1) r] .
  have i1: "py_index (length bm) (pt_i sq) = Some ?r"
    using b len by (simp add: py_index_in_range)
  have i2: "py_index (length (bm ! ?r)) (pt_j sq) = Some ?c"
    using b rowlen by (simp add: py_index_in_range)
  have step: "mark_squares bm (sq # sqs) = mark_squares ?bm' sqs"
    by (simp add: i1 i2)
  have wf': "wf_bitmap ?bm'"
    using Cons.prems(1) rowlen by (intro wf_bitmap_update) simp_all
  from Cons.prems(2) have rest: "\<forall>sq\<in>set sqs. 0 \<le> pt_i sq \<and> pt_i sq < 33 \<and> 0 \<le> pt_j sq \<and> pt_j sq < 12"
    by simp
  from Cons.IH[OF wf' rest] obtain marked where
    m: "mark_squares ?bm' sqs = Inr marked" "wf_bitmap marked"
       "\<forall>r<33. \<forall>c<12. marked ! r ! c =
          (if \<exists>sq\<in>set sqs. nat (pt_i sq) = r \<and> nat (pt_j sq) = c then 1 else ?bm' ! r ! c)"
    by blast
  have cells: "\<forall>r<33. \<forall>c<12. marked ! r ! c =
      (if \<exists>s\<in>set (sq # sqs). nat (pt_i s) = r \<and> nat (pt_j s) = c then 1 else bm ! r ! c)"
  proof (intro allI impI)
    fix r' c' :: nat assume r': "r' < 33" and c': "c' < 12"
    have upd: "?bm' ! r' ! c' = (if r' = ?r \<and> c' = ?c then 1 else bm ! r' ! c')"
      using r c len rowlen by (cases "r' = ?r") (simp_all add: nth_list_update)
    from m(3) r' c' have "marked ! r' ! c' =
        (if \<exists>sq\<in>set sqs. nat (pt_i sq) = r' \<and> nat (pt_j sq) = c' then 1 else ?bm' ! r' ! c')"
      by blast
    with upd show "marked ! r' ! c' =
        (if \<exists>s\<in>set (sq # sqs). nat (pt_i s) = r' \<and> nat (pt_j s) = c' then 1 else bm ! r' ! c')"
      by auto
  qed
  from step m(1,2) cells show ?case by auto
qed

lemma remove_rows_wf:
  assumes "wf_bitmap bm"
  shows "remove_rows bm =
         Inr (replicate (length (filter (list_all (\<lambda>x. x \<noteq> 0)) bm)) (replicate 12 0) @
              filter (\<lambda>row. \<not> list_all (\<lambda>x. x \<noteq> 0) row) bm)"
proof -
  have len: "length bm = 33" using assms by (simp add: wf_bitmap_def)
  then have ne: "bm \<noteq> []" by auto
  have row0: "length (bm ! 0) = 12" using wf_row[OF assms, of 0] by simp
  have "length bm - length (filter (\<lambda>row. \<not> list_all (\<lambda>x. x \<noteq> 0) row) bm) =
        length (filter (list_all (\<lambda>x. x \<noteq> 0)) bm)"
    using sum_length_filter_compl[of "list_all (\<lambda>x. x \<noteq> 0)" bm] by simp
  with ne row0 show ?thesis by (simp add: remove_rows_def Let_def)
qed

lemma remove_rows_shape:
  assumes "wf_bitmap bm" "remove_rows bm = Inr new_bitmap"
  shows "length new_bitmap = 33"
    and "\<forall>row\<in>set new_bitmap. length row = 12"
    and "\<forall>row\<in>set new_bitmap. \<not> list_all (\<lambda>x. x \<noteq> 0) row"
proof -
  let ?full = "list_all (\<lambda>x::int. x \<noteq> 0)"
  have eq: "new_bitmap = replicate (length (filter ?full bm)) (replicate 12 0) @
              filter (\<lambda>row. \<not> ?full row) bm"
    using remove_rows_wf[OF assms(1)] assms(2) by simp
  have len: "length bm = 33" using assms(1) by (simp add: wf_bitmap_def)
  show "length new_bitmap = 33"
    using sum_length_filter_compl[of ?full bm] len by (simp add: eq)
  show "\<forall>row\<in>set new_bitmap. length row = 12"
    using assms(1) by (auto simp: eq wf_bitmap_def list_all_iff)
  have "\<not> ?full (replicate 12 0)" by (simp add: list_all_iff)
  then show "\<forall>row\<in>set new_bitmap. \<not> ?full row"
    by (auto simp: eq)
qed


section \<open>The lock transition: the fall\<close>

lemma offsets_down [simp]: "offsets (down p) = offsets p"
  by (simp add: down_def)

lemma up_down [simp]: "up (down p) = p"
  by (simp add: up_def down_def)

lemma squares_down: "squares (down p) = map (\<lambda>sq. sq\<lparr>pt_i := pt_i sq + 1\<rparr>) (squares p)"
  by (simp add: squares_def down_def)

lemma place_fall_total:
  assumes wf: "wf_bitmap (bitmap self)" and ne: "offsets blk \<noteq> []"
  shows "\<exists>k. place_fall self blk = Some (Inr (), (down ^^ k) blk) \<and>
             check self ((down ^^ k) blk) = Inr False \<and>
             (\<forall>n<k. check self ((down ^^ n) blk) = Inr True)"
  using ne
proof (induction "nat (33 - pt_i (hd (squares blk)))" arbitrary: blk rule: less_induct)
  case less
  show ?case
  proof (cases "check self blk = Inr True")
    case False
    with check_wf_cases[OF wf, of blk] have f: "check self blk = Inr False" by blast
    have "place_fall self blk = Some (Inr (), blk)"
      by (subst place_fall.simps) (simp add: f)
    with f show ?thesis by (intro exI[of _ 0]) simp
  next
    case True
    from less.prems have "squares blk \<noteq> []" by (simp add: squares_Nil_iff)
    then have "hd (squares blk) \<in> set (squares blk)" by simp
    with check_wf_legal[OF wf True] have b: "0 \<le> pt_i (hd (squares blk))" "pt_i (hd (squares blk)) < 33"
      by auto
    have "hd (squares (down blk)) = (hd (squares blk))\<lparr>pt_i := pt_i (hd (squares blk)) + 1\<rparr>"
      using \<open>squares blk \<noteq> []\<close> by (simp add: squares_down hd_map)
    then have "nat (33 - pt_i (hd (squares (down blk)))) < nat (33 - pt_i (hd (squares blk)))"
      using b by simp
    from less.hyps[OF this] less.prems obtain k where
      k: "place_fall self (down blk) = Some (Inr (), (down ^^ k) (down blk))"
         "check self ((down ^^ k) (down blk)) = Inr False"
         "\<forall>n<k. check self ((down ^^ n) (down blk)) = Inr True"
      by auto
    have "place_fall self blk = Some (Inr (), (down ^^ Suc k) blk)"
      by (subst place_fall.simps) (simp add: True k(1) funpow_swap1)
    moreover have "check self ((down ^^ Suc k) blk) = Inr False"
      using k(2) by (simp add: funpow_swap1)
    moreover have "\<forall>n<Suc k. check self ((down ^^ n) blk) = Inr True"
    proof (intro allI impI)
      fix n assume "n < Suc k"
      show "check self ((down ^^ n) blk) = Inr True"
      proof (cases n)
        case 0
        then show ?thesis using True by simp
      next
        case (Suc m)
        with \<open>n < Suc k\<close> k(3) show ?thesis by (simp add: funpow_swap1)
      qed
    qed
    ultimately show ?thesis by blast
  qed
qed

lemma place_result:
  assumes wf: "wf_bitmap (bitmap self)"
    and legal: "check self (block self) = Inr True"
    and ne: "offsets (block self) \<noteq> []"
  shows "\<exists>k marked new_bitmap.
           check self ((down ^^ k) (block self)) = Inr True \<and>
           check self ((down ^^ Suc k) (block self)) = Inr False \<and>
           mark_squares (bitmap self) (squares ((down ^^ k) (block self))) = Inr marked \<and>
           wf_bitmap marked \<and>
           (\<forall>r<33. \<forall>c<12. marked ! r ! c =
              (if \<exists>sq\<in>set (squares ((down ^^ k) (block self))). nat (pt_i sq) = r \<and> nat (pt_j sq) = c
               then 1 else bitmap self ! r ! c)) \<and>
           remove_rows marked = Inr new_bitmap \<and>
           place self =
             Some (Inr (if preview self = [] then None
                        else Some \<lparr>bitmap = new_bitmap, block = hd (preview self),
                                   preview = tl (preview self)\<rparr>),
                   self\<lparr>block := (down ^^ k) (block self)\<rparr>)"
proof -
  from place_fall_total[OF wf ne] obtain k0 where
    k0: "place_fall self (block self) = Some (Inr (), (down ^^ k0) (block self))"
        "check self ((down ^^ k0) (block self)) = Inr False"
        "\<forall>n<k0. check self ((down ^^ n) (block self)) = Inr True"
    by blast
  from k0(2) legal have "k0 \<noteq> 0" by (cases k0) auto
  then obtain k where k: "k0 = Suc k" by (cases k0) auto
  let ?rest = "(down ^^ k) (block self)"
  have up: "up ((down ^^ k0) (block self)) = ?rest" by (simp add: k)
  have rest_legal: "check self ?rest = Inr True" using k0(3) k by simp
  from check_wf_legal[OF wf rest_legal]
  have inb: "\<forall>sq\<in>set (squares ?rest). 0 \<le> pt_i sq \<and> pt_i sq < 33 \<and> 0 \<le> pt_j sq \<and> pt_j sq < 12"
    by blast
  from mark_squares_wf[OF wf inb] obtain marked where
    m: "mark_squares (bitmap self) (squares ?rest) = Inr marked" "wf_bitmap marked"
       "\<forall>r<33. \<forall>c<12. marked ! r ! c =
          (if \<exists>sq\<in>set (squares ?rest). nat (pt_i sq) = r \<and> nat (pt_j sq) = c
           then 1 else bitmap self ! r ! c)"
    by blast
  from remove_rows_wf[OF m(2)] obtain new_bitmap where nb: "remove_rows marked = Inr new_bitmap"
    by blast
  have "place self =
          Some (Inr (if preview self = [] then None
                     else Some \<lparr>bitmap = new_bitmap, block = hd (preview self),
                                preview = tl (preview self)\<rparr>),
                self\<lparr>block := ?rest\<rparr>)"
    by (simp add: place_def k0(1) up m(1) nb)
  with rest_legal k0(2) k m nb show ?thesis by blast
qed

lemma check_squares_error: "check_squares bm sqs = Inl e \<Longrightarrow> e = IndexError"
  by (induction sqs) (auto split: if_splits)

lemma check_error: "check self blk = Inl e \<Longrightarrow> e = IndexError"
  by (auto simp: check_def dest: check_squares_error)

lemma mark_squares_error: "mark_squares bm sqs = Inl e \<Longrightarrow> e = IndexError"
  by (induction sqs arbitrary: bm) (auto split: option.splits)

lemma remove_rows_error: "remove_rows bm = Inl e \<Longrightarrow> e = IndexError"
  by (auto simp: remove_rows_def Let_def split: if_splits)

lemma place_fall_error:
  assumes "place_fall self blk = Some (Inl e, b)"
  shows "e = IndexError"
proof -
  have "\<forall>e' b'. y = (Inl e', b') \<longrightarrow> e' = IndexError" if "place_fall self blk = Some y" for y
  proof (rule place_fall.raw_induct[where P = "\<lambda>self blk y. \<forall>e' b'. y = (Inl e', b') \<longrightarrow> e' = IndexError",
        OF _ that])
    fix f :: "Board \<Rightarrow> Block \<Rightarrow> ((error + unit) \<times> Block) option" and self blk y
    assume IH: "\<And>s b y. f s b = Some y \<Longrightarrow> \<forall>e' b'. y = (Inl e', b') \<longrightarrow> e' = IndexError"
      and step: "(case check self blk of Inl e \<Rightarrow> Some (Inl e, blk)
                  | Inr ok \<Rightarrow> if ok then f self (down blk) else Some (Inr (), blk)) = Some y"
    show "\<forall>e' b'. y = (Inl e', b') \<longrightarrow> e' = IndexError"
    proof (cases "check self blk")
      case (Inl e0)
      with step check_error[OF Inl] show ?thesis by auto
    next
      case (Inr ok)
      show ?thesis
      proof (cases ok)
        case True
        with step Inr have "f self (down blk) = Some y" by simp
        from IH[OF this] show ?thesis .
      next
        case False
        with step Inr show ?thesis by auto
      qed
    qed
  qed
  with assms show ?thesis by blast
qed

lemma place_fall_offsets:
  assumes "place_fall self blk = Some y"
  shows "offsets blk \<noteq> []"
proof (rule place_fall.raw_induct[where P = "\<lambda>self blk y. offsets blk \<noteq> []", OF _ assms])
  fix f :: "Board \<Rightarrow> Block \<Rightarrow> ((error + unit) \<times> Block) option" and self blk y
  assume IH: "\<And>s b y. f s b = Some y \<Longrightarrow> offsets b \<noteq> []"
    and step: "(case check self blk of Inl e \<Rightarrow> Some (Inl e, blk)
                | Inr ok \<Rightarrow> if ok then f self (down blk) else Some (Inr (), blk)) = Some y"
  show "offsets blk \<noteq> []"
  proof
    assume e: "offsets blk = []"
    then have "check self blk = Inr True" by (simp add: check_def squares_def)
    with step have "f self (down blk) = Some y" by simp
    from IH[OF this] e show False by simp
  qed
qed

lemma place_no_offsets_diverges: "offsets (block self) = [] \<Longrightarrow> place self = None"
  using place_fall_offsets[of self "block self"]
  by (cases "place_fall self (block self)") (auto simp: place_def)

lemma place_error:
  assumes "place self = Some (Inl e, s)"
  shows "e = IndexError"
  using assms
  by (auto simp: place_def Let_def split: option.splits sum.splits prod.splits if_splits
           dest: place_fall_error mark_squares_error remove_rows_error)

lemma place_frame:
  assumes "place self = Some (res, s)"
  shows "bitmap s = bitmap self \<and> preview s = preview self"
  using assms
  by (auto simp: place_def Let_def split: option.splits sum.splits prod.splits if_splits)


section \<open>The lock transition: the claims\<close>

text \<open>
  Claim C5: on a board of 33 rows by 12 columns with a piece in legal position (a piece
  has at least one square; without any, the fall never ends, see
  \<open>place_no_offsets_diverges\<close>), \<^verbatim>\<open>Board.place\<close> returns. The grid it builds is the
  bitmap with the squares of the resting piece set to 1 (\<open>marked\<close>), its full rows
  deleted and as many all-zero rows put on top: it has 33 rows of 12 cells and no row in
  which every cell is filled. That grid is the bitmap of the Board returned (None is
  returned instead when the preview is empty).
\<close>

theorem place_grid_invariant:
  assumes "wf_bitmap (bitmap self)"
    and "check self (block self) = Inr True"
    and "offsets (block self) \<noteq> []"
  shows "\<exists>self' marked new_bitmap.
           place self =
             Some (Inr (if preview self = [] then None
                        else Some \<lparr>bitmap = new_bitmap, block = hd (preview self),
                                   preview = tl (preview self)\<rparr>), self') \<and>
           check self (block self') = Inr True \<and>
           mark_squares (bitmap self) (squares (block self')) = Inr marked \<and>
           (\<forall>r<33. \<forall>c<12. marked ! r ! c =
              (if \<exists>sq\<in>set (squares (block self')). nat (pt_i sq) = r \<and> nat (pt_j sq) = c
               then 1 else bitmap self ! r ! c)) \<and>
           new_bitmap =
             replicate (length (filter (list_all (\<lambda>x. x \<noteq> 0)) marked)) (replicate 12 0) @
             filter (\<lambda>row. \<not> list_all (\<lambda>x. x \<noteq> 0) row) marked \<and>
           length new_bitmap = 33 \<and>
           (\<forall>row\<in>set new_bitmap. length row = 12) \<and>
           (\<forall>row\<in>set new_bitmap. \<not> list_all (\<lambda>x. x \<noteq> 0) row)"
proof -
  from place_result[OF assms] obtain k marked new_bitmap where
    r: "check self ((down ^^ k) (block self)) = Inr True"
       "mark_squares (bitmap self) (squares ((down ^^ k) (block self))) = Inr marked"
       "wf_bitmap marked"
       "\<forall>r<33. \<forall>c<12. marked ! r ! c =
          (if \<exists>sq\<in>set (squares ((down ^^ k) (block self))). nat (pt_i sq) = r \<and> nat (pt_j sq) = c
           then 1 else bitmap self ! r ! c)"
       "remove_rows marked = Inr new_bitmap"
       "place self =
          Some (Inr (if preview self = [] then None
                     else Some \<lparr>bitmap = new_bitmap, block = hd (preview self),
                                preview = tl (preview self)\<rparr>),
                self\<lparr>block := (down ^^ k) (block self)\<rparr>)"
    by blast
  have eq: "new_bitmap =
             replicate (length (filter (list_all (\<lambda>x. x \<noteq> 0)) marked)) (replicate 12 0) @
             filter (\<lambda>row. \<not> list_all (\<lambda>x. x \<noteq> 0) row) marked"
    using remove_rows_wf[OF r(3)] r(5) by simp
  note shape = remove_rows_shape[OF r(3) r(5)]
  let ?s = "self\<lparr>block := (down ^^ k) (block self)\<rparr>"
  have b: "block ?s = (down ^^ k) (block self)" by simp
  show ?thesis
  proof (intro exI conjI)
    show "place self =
             Some (Inr (if preview self = [] then None
                        else Some \<lparr>bitmap = new_bitmap, block = hd (preview self),
                                   preview = tl (preview self)\<rparr>), ?s)"
      by (rule r(6))
    show "check self (block ?s) = Inr True" unfolding b by (rule r(1))
    show "mark_squares (bitmap self) (squares (block ?s)) = Inr marked" unfolding b by (rule r(2))
    show "\<forall>r<33. \<forall>c<12. marked ! r ! c =
              (if \<exists>sq\<in>set (squares (block ?s)). nat (pt_i sq) = r \<and> nat (pt_j sq) = c
               then 1 else bitmap self ! r ! c)"
      unfolding b by (rule r(4))
    show "new_bitmap =
             replicate (length (filter (list_all (\<lambda>x. x \<noteq> 0)) marked)) (replicate 12 0) @
             filter (\<lambda>row. \<not> list_all (\<lambda>x. x \<noteq> 0) row) marked"
      by (rule eq)
    show "length new_bitmap = 33" by (rule shape(1))
    show "\<forall>row\<in>set new_bitmap. length row = 12" by (rule shape(2))
    show "\<forall>row\<in>set new_bitmap. \<not> list_all (\<lambda>x. x \<noteq> 0) row" by (rule shape(3))
  qed
qed

theorem place_grid_invariant_witness:
  "(\<exists>self' new_bitmap.
      place gap_board = Some (Inr (Some \<lparr>bitmap = new_bitmap, block = domino, preview = []\<rparr>), self') \<and>
      length new_bitmap = 33 \<and>
      list_all (\<lambda>row. length row = 12 \<and> \<not> list_all (\<lambda>x. x \<noteq> 0) row) new_bitmap) \<and>
   place gap_board =
     Some (Inr (Some \<lparr>bitmap = empty_bitmap, block = domino, preview = []\<rparr>),
           gap_board\<lparr>block := domino\<lparr>translation := \<lparr>pt_i = 32, pt_j = 0\<rparr>\<rparr>\<rparr>)"
proof -
  have wf: "wf_bitmap (bitmap gap_board)" by code_simp
  have legal: "check gap_board (block gap_board) = Inr True" by code_simp
  have ne: "offsets (block gap_board) \<noteq> []" by (simp add: gap_board_def domino_def)
  have pv: "preview gap_board = [domino]" by (simp add: gap_board_def)
  from place_grid_invariant[OF wf legal ne] obtain self' new_bitmap where
    p: "place gap_board =
          Some (Inr (if preview gap_board = [] then None
                     else Some \<lparr>bitmap = new_bitmap, block = hd (preview gap_board),
                                preview = tl (preview gap_board)\<rparr>), self')"
    and len: "length new_bitmap = 33"
    and r1: "\<forall>row\<in>set new_bitmap. length row = 12"
    and r2: "\<forall>row\<in>set new_bitmap. \<not> list_all (\<lambda>x. x \<noteq> 0) row"
    by blast
  from p have "place gap_board =
      Some (Inr (Some \<lparr>bitmap = new_bitmap, block = domino, preview = []\<rparr>), self')"
    by (simp add: pv)
  moreover from r1 r2
  have "list_all (\<lambda>row. length row = 12 \<and> \<not> list_all (\<lambda>x. x \<noteq> 0) row) new_bitmap"
    by (simp add: list_all_iff)
  ultimately have "\<exists>self' new_bitmap.
      place gap_board = Some (Inr (Some \<lparr>bitmap = new_bitmap, block = domino, preview = []\<rparr>), self') \<and>
      length new_bitmap = 33 \<and>
      list_all (\<lambda>row. length row = 12 \<and> \<not> list_all (\<lambda>x. x \<noteq> 0) row) new_bitmap"
    using len by blast
  moreover have "place gap_board =
     Some (Inr (Some \<lparr>bitmap = empty_bitmap, block = domino, preview = []\<rparr>),
           gap_board\<lparr>block := domino\<lparr>translation := \<lparr>pt_i = 32, pt_j = 0\<rparr>\<rparr>\<rparr>)"
    by code_simp
  ultimately show ?thesis by (rule conjI)
qed




section \<open>Command sequences\<close>

lemma do_command_offsets: "do_command blk c = Inr blk' \<Longrightarrow> offsets blk' = offsets blk"
  by (auto simp: do_command_def left_def right_def up_def down_def rotate_block_def split: if_splits)

lemma check_block_update [simp]: "check (self\<lparr>block := b\<rparr>) blk = check self blk"
  by (simp add: check_def)

lemma do_commands_loop_after_drop:
  "do_commands_loop self (xs @ ''drop'' # ys) = do_commands_loop self (xs @ ''drop'' # zs)"
proof (induction xs arbitrary: self)
  case Nil
  show ?case by simp
next
  case (Cons x xs)
  show ?case
  proof (cases "x = ''drop''")
    case True
    then show ?thesis by simp
  next
    case False
    have IH: "\<And>s. do_commands_loop s (xs @ ''drop'' # ys) = do_commands_loop s (xs @ ''drop'' # zs)"
      by (rule Cons.IH)
    show ?thesis
    proof (cases "do_command (block self) x")
      case (Inl e)
      with False show ?thesis by simp
    next
      case (Inr blk)
      with False show ?thesis by (cases "check self blk") (simp_all add: Let_def IH)
    qed
  qed
qed

lemma do_commands_loop_upto_drop:
  "do_commands_loop self (commands @ [''drop'']) =
   do_commands_loop self (takeWhile (\<lambda>c. c \<noteq> ''drop'') commands @ [''drop''])"
proof (cases "''drop'' \<in> set commands")
  case False
  then have "takeWhile (\<lambda>c. c \<noteq> ''drop'') commands = commands"
    by (intro takeWhile_eq_all_conv[THEN iffD2]) auto
  then show ?thesis by (simp only:)
next
  case True
  let ?pre = "takeWhile (\<lambda>c. c \<noteq> ''drop'') commands"
  let ?post = "dropWhile (\<lambda>c. c \<noteq> ''drop'') commands"
  from True have ne: "?post \<noteq> []" by (auto simp: dropWhile_eq_Nil_conv)
  then have "hd ?post = ''drop''" using hd_dropWhile[of "\<lambda>c. c \<noteq> ''drop''" commands] by blast
  with ne obtain post where post: "?post = ''drop'' # post" by (cases ?post) auto
  have "commands = ?pre @ ?post" by (rule takeWhile_dropWhile_id[symmetric])
  then have "commands = ?pre @ ''drop'' # post" by (simp only: post)
  then have "commands @ [''drop''] = (?pre @ ''drop'' # post) @ [''drop'']" by (rule arg_cong)
  then have "commands @ [''drop''] = ?pre @ ''drop'' # (post @ [''drop''])"
    by (simp only: append_assoc append_Cons)
  then have "do_commands_loop self (commands @ [''drop'']) =
             do_commands_loop self (?pre @ ''drop'' # (post @ [''drop'']))" by (simp only:)
  also have "\<dots> = do_commands_loop self (?pre @ ''drop'' # [])"
    by (rule do_commands_loop_after_drop)
  finally show ?thesis .
qed

lemma do_commands_loop_contains_drop:
  assumes "''drop'' \<in> set commands"
  shows "do_commands_loop self (commands @ [''drop'']) = do_commands_loop self commands"
proof -
  from assms obtain xs ys where c: "commands = xs @ ''drop'' # ys"
    by (auto simp: in_set_conv_decomp)
  have "commands @ [''drop''] = xs @ ''drop'' # (ys @ [''drop''])" by (simp only: c append_assoc append_Cons)
  then have "do_commands_loop self (commands @ [''drop'']) =
        do_commands_loop self (xs @ ''drop'' # (ys @ [''drop'']))"
    by (simp only:)
  also have "\<dots> = do_commands_loop self (xs @ ''drop'' # ys)" by (rule do_commands_loop_after_drop)
  finally show ?thesis by (simp only: c)
qed

lemma do_commands_loop_frame:
  assumes "do_commands_loop self commands = Some (res, s)"
  shows "bitmap s = bitmap self \<and> preview s = preview self"
  using assms
proof (induction commands arbitrary: self)
  case Nil
  then show ?case by simp
next
  case (Cons c cs)
  show ?case
  proof (cases "c = ''drop''")
    case True
    with Cons.prems show ?thesis by (simp add: place_frame)
  next
    case False
    show ?thesis
    proof (cases "do_command (block self) c")
      case (Inl e)
      with Cons.prems False show ?thesis by simp
    next
      case (Inr blk)
      show ?thesis
      proof (cases "check self blk")
        case (Inl e)
        with Cons.prems False \<open>do_command (block self) c = Inr blk\<close> show ?thesis by (auto simp: Let_def)
      next
        case (Inr ok)
        show ?thesis
        proof (cases ok)
          case True
          with Cons.prems False \<open>do_command (block self) c = Inr blk\<close> Inr
          have "do_commands_loop (self\<lparr>block := blk\<rparr>) cs = Some (res, s)" by (simp add: Let_def)
          from Cons.IH[OF this] show ?thesis by simp
        next
          case False
          with Cons.prems \<open>c \<noteq> ''drop''\<close> \<open>do_command (block self) c = Inr blk\<close> Inr show ?thesis
            by (auto simp: Let_def)
        qed
      qed
    qed
  qed
qed

lemma do_commands_loop_total:
  assumes "wf_bitmap (bitmap self)" "offsets (block self) \<noteq> []" "check self (block self) = Inr True"
  shows "\<exists>res s. do_commands_loop self commands = Some (res, s)"
  using assms
proof (induction commands arbitrary: self)
  case Nil
  then show ?case by simp
next
  case (Cons c cs)
  show ?case
  proof (cases "c = ''drop''")
    case True
    from place_result[OF Cons.prems(1,3,2)] True show ?thesis by auto
  next
    case False
    show ?thesis
    proof (cases "do_command (block self) c")
      case (Inl e)
      with False show ?thesis by simp
    next
      case (Inr blk)
      from check_wf_cases[OF Cons.prems(1), of blk] show ?thesis
      proof
        assume ok: "check self blk = Inr True"
        have "\<exists>res s. do_commands_loop (self\<lparr>block := blk\<rparr>) cs = Some (res, s)"
          using Cons.prems ok do_command_offsets[OF Inr] by (intro Cons.IH) simp_all
        with False Inr ok show ?thesis by (simp add: Let_def)
      next
        assume "check self blk = Inr False"
        with False Inr show ?thesis by (simp add: Let_def)
      qed
    qed
  qed
qed

lemma do_command_error: "do_command blk c = Inl e \<Longrightarrow> e = AssertionError"
  by (auto simp: do_command_def split: if_splits)

lemma do_commands_loop_invalid_iff:
  assumes "wf_bitmap (bitmap self)" and "''drop'' \<notin> set pre"
  shows "(\<exists>s. do_commands_loop self (pre @ [''drop'']) = Some (Inl InvalidMoveError, s)) \<longleftrightarrow>
         (\<exists>k<length pre. \<exists>blk. Block_do_commands (block self) (take (Suc k) pre) = Inr blk \<and>
                                  check self blk = Inr False)"
  using assms
proof (induction pre arbitrary: self)
  case Nil
  have "place self \<noteq> Some (Inl InvalidMoveError, s)" for s
    using place_error[of self InvalidMoveError s] by auto
  then show ?case by simp
next
  case (Cons c pre)
  from Cons.prems have c: "c \<noteq> ''drop''" and nd: "''drop'' \<notin> set pre" by auto
  show ?case
  proof (cases "do_command (block self) c")
    case (Inl e)
    with do_command_error[OF Inl] c show ?thesis by simp
  next
    case (Inr blk1)
    from check_wf_cases[OF Cons.prems(1), of blk1] show ?thesis
    proof
      assume bad: "check self blk1 = Inr False"
      have "do_commands_loop self ((c # pre) @ [''drop'']) = Some (Inl InvalidMoveError, self\<lparr>block := blk1\<rparr>)"
        using c Inr bad by (simp add: Let_def)
      moreover have "Block_do_commands (block self) (take (Suc 0) (c # pre)) = Inr blk1"
        using Inr by simp
      ultimately show ?thesis using bad by (intro iffI) (blast, auto)
    next
      assume ok: "check self blk1 = Inr True"
      let ?self' = "self\<lparr>block := blk1\<rparr>"
      have loop: "do_commands_loop self ((c # pre) @ [''drop'']) = do_commands_loop ?self' (pre @ [''drop''])"
        using c Inr ok by (simp add: Let_def)
      have IH: "(\<exists>s. do_commands_loop ?self' (pre @ [''drop'']) = Some (Inl InvalidMoveError, s)) \<longleftrightarrow>
         (\<exists>k<length pre. \<exists>blk. Block_do_commands blk1 (take (Suc k) pre) = Inr blk \<and>
                                  check self blk = Inr False)"
        using Cons.IH[of ?self'] Cons.prems(1) nd by simp
      have step: "Block_do_commands (block self) (take (Suc k) (c # pre)) = Block_do_commands blk1 (take k pre)" for k
        using Inr by simp
      have "(\<exists>k<length (c # pre). \<exists>blk. Block_do_commands (block self) (take (Suc k) (c # pre)) = Inr blk \<and>
                                  check self blk = Inr False) \<longleftrightarrow>
            (\<exists>k<length pre. \<exists>blk. Block_do_commands blk1 (take (Suc k) pre) = Inr blk \<and>
                                  check self blk = Inr False)" (is "?L \<longleftrightarrow> ?R")
      proof
        assume ?L
        then obtain k blk where k: "k < length (c # pre)"
          "Block_do_commands blk1 (take k pre) = Inr blk" "check self blk = Inr False"
          unfolding step by blast
        show ?R
        proof (cases k)
          case 0
          with k(2,3) ok show ?thesis by simp
        next
          case (Suc k')
          with k show ?thesis by auto
        qed
      next
        assume ?R
        then obtain k blk where "k < length pre"
          "Block_do_commands blk1 (take (Suc k) pre) = Inr blk" "check self blk = Inr False"
          by blast
        then have "Suc k < length (c # pre) \<and>
           Block_do_commands (block self) (take (Suc (Suc k)) (c # pre)) = Inr blk \<and> check self blk = Inr False"
          unfolding step by simp
        then show ?L by blast
      qed
      with IH loop show ?thesis by (simp only:)
    qed
  qed
qed

lemma Board_do_commands_illegal:
  assumes "check (self\<lparr>block := reset_position (block self)\<rparr>) (reset_position (block self)) = Inr False"
  shows "Board_do_commands self commands =
         Some (Inl InvalidMoveError, self\<lparr>block := reset_position (block self)\<rparr>, commands)"
  using assms by (simp add: Board_do_commands_def Let_def)

lemma Board_do_commands_legal:
  assumes "check (self\<lparr>block := reset_position (block self)\<rparr>) (reset_position (block self)) = Inr True"
  shows "Board_do_commands self commands =
         map_option (\<lambda>(res, s). (res, s, commands @ [''drop'']))
           (do_commands_loop (self\<lparr>block := reset_position (block self)\<rparr>)
              (takeWhile (\<lambda>c. c \<noteq> ''drop'') commands @ [''drop'']))"
proof -
  let ?reset = "self\<lparr>block := reset_position (block self)\<rparr>"
  have "Board_do_commands self commands =
        map_option (\<lambda>(res, s). (res, s, commands @ [''drop''])) (do_commands_loop ?reset (commands @ [''drop'']))"
    using assms by (simp add: Board_do_commands_def Let_def split: option.splits)
  also have "do_commands_loop ?reset (commands @ [''drop'']) =
             do_commands_loop ?reset (takeWhile (\<lambda>c. c \<noteq> ''drop'') commands @ [''drop''])"
    by (rule do_commands_loop_upto_drop)
  finally show ?thesis .
qed

lemma takeWhile_no_drop: "''drop'' \<notin> set (takeWhile (\<lambda>c. c \<noteq> ''drop'') commands)"
  by (auto dest: set_takeWhileD)

text \<open>
  Claim C4: \<^verbatim>\<open>Board.do_commands\<close> raises InvalidMoveError (the code's name for the
  spec's InvalidPlacement), on a board of 33 rows by 12 columns, exactly when the reset
  position is illegal or some command before the first \<^verbatim>\<open>drop\<close> is applied (it and
  the commands before it are move names) and leaves the piece in an illegal position. On
  every board, value and board of the call are those of the call with only the commands
  before the first \<^verbatim>\<open>drop\<close>, and whatever the outcome, the bitmap of the board is the
  one before the call.
\<close>

theorem do_commands_invalid_move:
  fixes self :: Board and commands :: "string list"
  defines "reset \<equiv> self\<lparr>block := reset_position (block self)\<rparr>"
    and "pre \<equiv> takeWhile (\<lambda>c. c \<noteq> ''drop'') commands"
  shows "(wf_bitmap (bitmap self) \<longrightarrow>
           ((\<exists>s l. Board_do_commands self commands = Some (Inl InvalidMoveError, s, l)) \<longleftrightarrow>
              check reset (block reset) = Inr False \<or>
              (\<exists>k<length pre. \<exists>blk. Block_do_commands (block reset) (take (Suc k) pre) = Inr blk \<and>
                                       check reset blk = Inr False))) \<and>
         map_option (\<lambda>(res, s, l). (res, s)) (Board_do_commands self commands) =
           map_option (\<lambda>(res, s, l). (res, s)) (Board_do_commands self pre) \<and>
         (\<forall>res s l. Board_do_commands self commands = Some (res, s, l) \<longrightarrow> bitmap s = bitmap self)"
proof (intro conjI impI)
  assume wf: "wf_bitmap (bitmap self)"
  have wfr: "wf_bitmap (bitmap reset)" using wf by (simp add: reset_def)
  from check_wf_cases[OF wfr, of "block reset"]
  have cases: "check reset (block reset) = Inr True \<or> check reset (block reset) = Inr False" .
  show "(\<exists>s l. Board_do_commands self commands = Some (Inl InvalidMoveError, s, l)) \<longleftrightarrow>
            check reset (block reset) = Inr False \<or>
            (\<exists>k<length pre. \<exists>blk. Block_do_commands (block reset) (take (Suc k) pre) = Inr blk \<and>
                                     check reset blk = Inr False)"
  proof (cases "check reset (block reset) = Inr True")
    case True
    then have t: "check (self\<lparr>block := reset_position (block self)\<rparr>) (reset_position (block self)) = Inr True"
      by (simp add: reset_def)
    have "(\<exists>s l. Board_do_commands self commands = Some (Inl InvalidMoveError, s, l)) \<longleftrightarrow>
          (\<exists>s. do_commands_loop reset (pre @ [''drop'']) = Some (Inl InvalidMoveError, s))"
      unfolding Board_do_commands_legal[OF t] reset_def[symmetric] pre_def[symmetric]
      by (cases "do_commands_loop reset (pre @ [''drop''])") auto
    also have "\<dots> \<longleftrightarrow> (\<exists>k<length pre. \<exists>blk. Block_do_commands (block reset) (take (Suc k) pre) = Inr blk \<and>
                                     check reset blk = Inr False)"
      by (rule do_commands_loop_invalid_iff[OF wfr]) (simp add: pre_def takeWhile_no_drop)
    finally show ?thesis using True by simp
  next
    case False
    with cases have f: "check reset (block reset) = Inr False" by blast
    then have "check (self\<lparr>block := reset_position (block self)\<rparr>) (reset_position (block self)) = Inr False"
      by (simp add: reset_def)
    from Board_do_commands_illegal[OF this] f show ?thesis by simp
  qed
next
  have pre_pre: "takeWhile (\<lambda>c. c \<noteq> ''drop'') pre = pre"
    unfolding pre_def by (intro takeWhile_eq_all_conv[THEN iffD2]) (auto dest: set_takeWhileD)
  have unfold: "Board_do_commands self cs =
      (case check reset (block reset) of
         Inl e \<Rightarrow> Some (Inl e, reset, cs)
       | Inr ok \<Rightarrow>
           if \<not> ok then Some (Inl InvalidMoveError, reset, cs)
           else map_option (\<lambda>(res, s). (res, s, cs @ [''drop'']))
                  (do_commands_loop reset (takeWhile (\<lambda>c. c \<noteq> ''drop'') cs @ [''drop''])))" for cs
    unfolding do_commands_loop_upto_drop[symmetric]
    by (simp add: Board_do_commands_def reset_def Let_def split: sum.splits option.splits)
  show "map_option (\<lambda>(res, s, l). (res, s)) (Board_do_commands self commands) =
           map_option (\<lambda>(res, s, l). (res, s)) (Board_do_commands self pre)"
    unfolding unfold[of commands] unfold[of pre] pre_pre pre_def[symmetric]
    by (cases "do_commands_loop reset (pre @ [''drop''])")
       (auto split: sum.splits)
  show "\<forall>res s l. Board_do_commands self commands = Some (res, s, l) \<longrightarrow> bitmap s = bitmap self"
  proof (intro allI impI)
    fix res s l
    assume a: "Board_do_commands self commands = Some (res, s, l)"
    show "bitmap s = bitmap self"
    proof (cases "check reset (block reset) = Inr True")
      case True
      with a have "do_commands_loop reset (pre @ [''drop'']) = Some (res, s)"
        unfolding unfold[of commands] pre_def[symmetric]
        by (cases "do_commands_loop reset (pre @ [''drop''])") auto
      from do_commands_loop_frame[OF this] show ?thesis by (simp add: reset_def)
    next
      case False
      with a have "s = reset"
        unfolding unfold[of commands] by (auto split: sum.splits if_splits)
      then show ?thesis by (simp add: reset_def)
    qed
  qed
qed

lemma reset_empty_board: "empty_board\<lparr>block := reset_position (block empty_board)\<rparr> = empty_board"
  by (simp add: empty_board_def domino_def reset_position_def)

theorem do_commands_invalid_move_witness:
  "(\<exists>s l. Board_do_commands empty_board six_lefts = Some (Inl InvalidMoveError, s, l)) \<and>
   map_option (\<lambda>(res, s, l). (res, s)) (Board_do_commands empty_board [''left'', ''drop'', ''right'']) =
   map_option (\<lambda>(res, s, l). (res, s)) (Board_do_commands empty_board [''left''])"
proof -
  have wf: "wf_bitmap (bitmap empty_board)" by (simp add: empty_board_def wf_empty_bitmap)
  have pre: "takeWhile (\<lambda>c. c \<noteq> ''drop'') six_lefts = [''left'', ''left'', ''left'', ''left'', ''left'', ''left'']"
    by (simp add: six_lefts_def)
  have run: "Block_do_commands (block empty_board) (take (Suc 5) [''left'', ''left'', ''left'', ''left'', ''left'', ''left'']) =
               Inr (domino\<lparr>translation := \<lparr>pt_i = 0, pt_j = - 6\<rparr>\<rparr>)"
    by code_simp
  have bad: "check empty_board (domino\<lparr>translation := \<lparr>pt_i = 0, pt_j = - 6\<rparr>\<rparr>) = Inr False"
    by code_simp
  have "\<exists>k<length [''left'', ''left'', ''left'', ''left'', ''left'', ''left''].
          \<exists>blk. Block_do_commands (block empty_board) (take (Suc k) [''left'', ''left'', ''left'', ''left'', ''left'', ''left'']) = Inr blk \<and>
                check empty_board blk = Inr False"
    using run bad by (intro exI[of _ 5]) simp
  with do_commands_invalid_move[of empty_board six_lefts] wf
  have 1: "\<exists>s l. Board_do_commands empty_board six_lefts = Some (Inl InvalidMoveError, s, l)"
    unfolding reset_empty_board pre by blast
  have pre2: "takeWhile (\<lambda>c. c \<noteq> ''drop'') [''left'', ''drop'', ''right''] = [''left'']" by simp
  from do_commands_invalid_move[of empty_board "[''left'', ''drop'', ''right'']"]
  have 2: "map_option (\<lambda>(res, s, l). (res, s)) (Board_do_commands empty_board [''left'', ''drop'', ''right'']) =
   map_option (\<lambda>(res, s, l). (res, s)) (Board_do_commands empty_board [''left''])"
    unfolding pre2 by blast
  from 1 2 show ?thesis by (rule conjI)
qed

text \<open>
  Claim C10 (for every command list the call appends \<^verbatim>\<open>drop\<close> to the caller's list)
  does not hold when the piece collides where it spawns: line 200 raises before line 201
  appends, and the list is as it was.
\<close>

theorem do_commands_spawn_collision_no_append:
  "Board_do_commands blocked_board [''left''] = Some (Inl InvalidMoveError, blocked_board, [''left''])"
  by code_simp

text \<open>
  Claim C10 as amended: on a 33 by 12 board with a piece of at least one square, when the
  reset position is legal the call ends (with a value or an exception) and has appended
  \<^verbatim>\<open>drop\<close> to the caller's list, also when the list already held one; value and
  board are those of the loop run up to the first \<^verbatim>\<open>drop\<close>, and when the list already
  held one, those of the loop run over the list as the caller passed it. When the reset
  position is illegal the call raises InvalidMoveError and the list is unchanged.
\<close>

theorem do_commands_appends_drop:
  fixes self :: Board and commands :: "string list"
  defines "reset \<equiv> self\<lparr>block := reset_position (block self)\<rparr>"
  assumes wf: "wf_bitmap (bitmap self)" and ne: "offsets (block self) \<noteq> []"
  shows "(check reset (block reset) = Inr True \<longrightarrow>
            (\<exists>res s. Board_do_commands self commands = Some (res, s, commands @ [''drop'']) \<and>
                do_commands_loop reset (takeWhile (\<lambda>c. c \<noteq> ''drop'') commands @ [''drop'']) = Some (res, s) \<and>
                (''drop'' \<in> set commands \<longrightarrow> do_commands_loop reset commands = Some (res, s)))) \<and>
         (check reset (block reset) = Inr False \<longrightarrow>
            Board_do_commands self commands = Some (Inl InvalidMoveError, reset, commands))"
proof (intro conjI impI)
  assume legal: "check reset (block reset) = Inr True"
  then have t: "check (self\<lparr>block := reset_position (block self)\<rparr>) (reset_position (block self)) = Inr True"
    by (simp add: reset_def)
  have wfr: "wf_bitmap (bitmap reset)" using wf by (simp add: reset_def)
  have ner: "offsets (block reset) \<noteq> []" using ne by (simp add: reset_def reset_position_def)
  let ?pre = "takeWhile (\<lambda>c. c \<noteq> ''drop'') commands"
  from do_commands_loop_total[OF wfr ner legal, of "?pre @ [''drop'']"] obtain res s where
    l: "do_commands_loop reset (?pre @ [''drop'']) = Some (res, s)" by blast
  have 1: "Board_do_commands self commands = Some (res, s, commands @ [''drop''])"
    unfolding Board_do_commands_legal[OF t] reset_def[symmetric] by (simp add: l)
  have 3: "''drop'' \<in> set commands \<longrightarrow> do_commands_loop reset commands = Some (res, s)"
  proof
    assume d: "''drop'' \<in> set commands"
    have "do_commands_loop reset commands = do_commands_loop reset (commands @ [''drop''])"
      by (rule do_commands_loop_contains_drop[OF d, symmetric])
    also have "\<dots> = do_commands_loop reset (?pre @ [''drop''])" by (rule do_commands_loop_upto_drop)
    finally show "do_commands_loop reset commands = Some (res, s)" using l by simp
  qed
  from 1 l 3
  show "\<exists>res s. Board_do_commands self commands = Some (res, s, commands @ [''drop'']) \<and>
                do_commands_loop reset (?pre @ [''drop'']) = Some (res, s) \<and>
                (''drop'' \<in> set commands \<longrightarrow> do_commands_loop reset commands = Some (res, s))"
    by blast
next
  assume "check reset (block reset) = Inr False"
  then have "check (self\<lparr>block := reset_position (block self)\<rparr>) (reset_position (block self)) = Inr False"
    by (simp add: reset_def)
  from Board_do_commands_illegal[OF this]
  show "Board_do_commands self commands = Some (Inl InvalidMoveError, reset, commands)"
    by (simp add: reset_def)
qed

theorem do_commands_appends_drop_witness:
  "\<exists>res s. Board_do_commands empty_board [''left'', ''drop'', ''right''] =
              Some (res, s, [''left'', ''drop'', ''right'', ''drop'']) \<and>
            do_commands_loop empty_board [''left'', ''drop''] = Some (res, s) \<and>
            do_commands_loop empty_board [''left'', ''drop'', ''right''] = Some (res, s)"
proof -
  have wf: "wf_bitmap (bitmap empty_board)" by (simp add: empty_board_def wf_empty_bitmap)
  have ne: "offsets (block empty_board) \<noteq> []" by (simp add: empty_board_def domino_def)
  have legal: "check empty_board (block empty_board) = Inr True" by code_simp
  have pre: "takeWhile (\<lambda>c. c \<noteq> ''drop'') [''left'', ''drop'', ''right''] = [''left'']" by simp
  from do_commands_appends_drop[OF wf ne, of "[''left'', ''drop'', ''right'']"] legal
  show ?thesis unfolding reset_empty_board pre by simp
qed

end
